theory Spec2Isabelle
  imports Main "HOL-Library.Word"
begin

unbundle bit_operations_syntax

section \<open>screenshot\_daemon.c: data\<close>

text \<open>
  \<open>unsigned long\<close> on the LP64 targets the daemon is built for is 64 bits wide;
  \<open>png_byte\<close> is \<open>unsigned char\<close>.
\<close>

type_synonym ulong = "64 word"
type_synonym png_byte = "8 word"

text \<open>
  The fields of Xlib's \<open>XImage\<close> that \<open>save_png\<close> reads. \<open>XGetPixel\<close> is Xlib's
  accessor for the packed pixel at column \<open>x\<close>, row \<open>y\<close>; it is a field here because
  the pixel data belongs to the image.
\<close>

record XImage =
  width :: int
  height :: int
  red_mask :: ulong
  green_mask :: ulong
  blue_mask :: ulong
  XGetPixel :: "int \<Rightarrow> int \<Rightarrow> ulong"

text \<open>\<open>errno\<close> values of \<open>mkdir(2)\<close> that the model distinguishes.\<close>

datatype errno = EEXIST | ENOENT | EACCES

text \<open>
  Every call that leaves the process is recorded as an event, in program order. A
  \<open>bool\<close> argument is the call's outcome (\<open>True\<close> for success).
\<close>

datatype event =
    EvLocaltime
  | EvMkdir string nat "errno option"
  | EvRand
  | EvXGetImage bool
  | EvXDestroyImage
  | EvStderr string
  | EvPerror string
  | EvStdout string
  | EvFopen string bool
  | EvFclose
  | EvPngCreateWrite bool
  | EvPngCreateInfo bool
  | EvPngDestroyWrite
  | EvPngInitIo
  | EvPngSetIHDR int int bool
  | EvPngWriteInfo bool
  | EvMalloc nat bool
  | EvFree
  | EvPngWriteRow "png_byte list" bool
  | EvPngWriteEnd bool
  | EvUsleep nat

section \<open>Pixel normalisation (the loops of \<open>save_png\<close>)\<close>

text \<open>
  The body of the inner loop: three stores into the row buffer. The assignment to a
  \<open>png_byte\<close> keeps the low eight bits (\<open>ucast\<close>).
\<close>

definition store_pixel :: "XImage \<Rightarrow> int \<Rightarrow> ulong \<Rightarrow> png_byte list \<Rightarrow> png_byte list" where
  "store_pixel img x pixel row =
     row[nat (3 * x) := ucast (drop_bit 16 (pixel AND red_mask img)),
         nat (3 * x + 1) := ucast (drop_bit 8 (pixel AND green_mask img)),
         nat (3 * x + 2) := ucast (pixel AND blue_mask img)]"

text \<open>\<open>for (int x = 0; x < img->width; ++x)\<close>, entered at column \<open>x\<close>.\<close>

function fill_row :: "XImage \<Rightarrow> int \<Rightarrow> int \<Rightarrow> png_byte list \<Rightarrow> png_byte list" where
  "fill_row img y x row =
     (if x < width img
      then fill_row img y (x + 1) (store_pixel img x (XGetPixel img x y) row)
      else row)"
  by pat_completeness auto
termination
  by (relation "measure (\<lambda>(img, y, x, row). nat (width img - x))") auto

declare fill_row.simps [simp del]

section \<open>The encoder \<open>save_png\<close>\<close>

text \<open>
  What the C library and libpng answer during one call of \<open>save_png\<close>. A libpng
  call that fails reports through \<open>png_error\<close>, which \<open>longjmp\<close>s to the
  \<open>setjmp\<close> in \<open>save_png\<close>. \<open>junk\<close> is the content of the buffer \<open>malloc\<close> returns.
\<close>

record png_faults =
  fopen_fails :: bool
  create_write_fails :: bool
  create_info_fails :: bool
  set_ihdr_fails :: bool
  write_info_fails :: bool
  malloc_fails :: bool
  write_row_fails :: "int \<Rightarrow> bool"
  write_end_fails :: bool
  junk :: "nat \<Rightarrow> png_byte"

text \<open>
  \<open>for (int y = 0; y < img->height; ++y)\<close>, entered at row \<open>y\<close>: fills the buffer,
  then hands it to \<open>png_write_row\<close>. The result is \<open>False\<close> when a
  \<open>png_write_row\<close> took the \<open>longjmp\<close>; nothing after it in the loop runs then.
\<close>

function write_rows :: "png_faults \<Rightarrow> XImage \<Rightarrow> int \<Rightarrow> png_byte list \<Rightarrow> bool \<times> event list" where
  "write_rows flt img y row =
     (if y < height img
      then (let row' = fill_row img y 0 row in
            if write_row_fails flt y then (False, [EvPngWriteRow row' False])
            else (case write_rows flt img (y + 1) row' of
                    (ok, evs) \<Rightarrow> (ok, EvPngWriteRow row' True # evs)))
      else (True, []))"
  by pat_completeness auto
termination
  by (relation "measure (\<lambda>(flt, img, y, row). nat (height img - y))") auto

declare write_rows.simps [simp del]

text \<open>
  \<open>save_png\<close>: the result is the returned \<open>int\<close> and the calls made, in order. The
  block after \<open>setjmp\<close> (destroy, \<open>fclose\<close>, \<open>return -1\<close>) is what every failing libpng
  call continues with.
\<close>

definition save_png :: "png_faults \<Rightarrow> XImage \<Rightarrow> string \<Rightarrow> int \<times> event list" where
  "save_png flt img filepath =
     (if fopen_fails flt then (- 1, [EvFopen filepath False, EvPerror ''fopen''])
      else let e1 = [EvFopen filepath True] in
      if create_write_fails flt then (- 1, e1 @ [EvPngCreateWrite False, EvFclose])
      else let e2 = e1 @ [EvPngCreateWrite True] in
      if create_info_fails flt
      then (- 1, e2 @ [EvPngCreateInfo False, EvPngDestroyWrite, EvFclose])
      else let e3 = e2 @ [EvPngCreateInfo True, EvPngInitIo] in
      if set_ihdr_fails flt
      then (- 1, e3 @ [EvPngSetIHDR (width img) (height img) False, EvPngDestroyWrite, EvFclose])
      else let e4 = e3 @ [EvPngSetIHDR (width img) (height img) True] in
      if write_info_fails flt
      then (- 1, e4 @ [EvPngWriteInfo False, EvPngDestroyWrite, EvFclose])
      else let e5 = e4 @ [EvPngWriteInfo True]; n = nat (3 * width img) in
      if malloc_fails flt
      then (- 1, e5 @ [EvMalloc n False, EvPngDestroyWrite, EvFclose])
      else let e6 = e5 @ [EvMalloc n True] in
      (case write_rows flt img 0 (map (junk flt) [0..<n]) of
         (False, evs) \<Rightarrow> (- 1, e6 @ evs @ [EvPngDestroyWrite, EvFclose])
       | (True, evs) \<Rightarrow>
           let e7 = e6 @ evs @ [EvFree] in
           if write_end_fails flt
           then (- 1, e7 @ [EvPngWriteEnd False, EvPngDestroyWrite, EvFclose])
           else (0, e7 @ [EvPngWriteEnd True, EvPngDestroyWrite, EvFclose])))"

text \<open>Resources still held after a sequence of calls: the open \<open>FILE\<close> and the row buffer.\<close>

fun fp_open :: "bool \<Rightarrow> event list \<Rightarrow> bool" where
  "fp_open b [] = b"
| "fp_open b (EvFopen p ok # es) = fp_open ok es"
| "fp_open b (EvFclose # es) = fp_open False es"
| "fp_open b (e # es) = fp_open b es"

fun row_live :: "bool \<Rightarrow> event list \<Rightarrow> bool" where
  "row_live b [] = b"
| "row_live b (EvMalloc n ok # es) = row_live ok es"
| "row_live b (EvFree # es) = row_live False es"
| "row_live b (e # es) = row_live b es"

section \<open>Command line: the interval argument\<close>

definition DEFAULT_INTERVAL_MS :: int where
  "DEFAULT_INTERVAL_MS = 1000"

definition RANDOM_NAME_LEN :: nat where
  "RANDOM_NAME_LEN = 8"

text \<open>
  \<open>atoi\<close> belongs to the C library, not to this program. It is modelled as glibc
  implements it, \<open>(int) strtol (s, NULL, 10)\<close>: white space is skipped, one sign is
  read, then the longest run of decimal digits; \<open>strtol\<close> saturates at the bounds of
  \<open>long\<close> (64 bits) and the conversion to \<open>int\<close> keeps the low 32 bits. (ISO C leaves
  the result undefined when the value does not fit an \<open>int\<close>.)
\<close>

definition isspace :: "char \<Rightarrow> bool" where
  "isspace c = (c \<in> set [CHR '' '', CHR 0x09, CHR 0x0A, CHR 0x0B, CHR 0x0C, CHR 0x0D])"

definition isdigit :: "char \<Rightarrow> bool" where
  "isdigit c = (c \<in> set ''0123456789'')"

definition digit_val :: "char \<Rightarrow> int" where
  "digit_val c = int (of_char c) - 48"

text \<open>The text after leading white space; whether it starts with a minus sign; the digits read.\<close>

definition after_space :: "string \<Rightarrow> string" where
  "after_space s = dropWhile isspace s"

definition is_negative :: "string \<Rightarrow> bool" where
  "is_negative s = (after_space s \<noteq> [] \<and> hd (after_space s) = CHR ''-'')"

definition digits_read :: "string \<Rightarrow> string" where
  "digits_read s =
     (let s1 = after_space s in
      takeWhile isdigit
        (if s1 \<noteq> [] \<and> (hd s1 = CHR ''-'' \<or> hd s1 = CHR ''+'') then tl s1 else s1))"

definition strtol10 :: "string \<Rightarrow> int" where
  "strtol10 s =
     (let v = foldl (\<lambda>a c. 10 * a + digit_val c) 0 (digits_read s);
          r = (if is_negative s then - v else v)
      in max (- (2 ^ 63)) (min (2 ^ 63 - 1) r))"

definition atoi :: "string \<Rightarrow> int" where
  "atoi s = sint (word_of_int (strtol10 s) :: 32 word)"

text \<open>
  The first lines of \<open>main\<close>: \<open>argc\<close> is the length of \<open>argv\<close>.
\<close>

definition interval_of_args :: "string list \<Rightarrow> int" where
  "interval_of_args argv =
     (if length argv > 1
      then (let v = atoi (argv ! 1) in if v > 0 then v else DEFAULT_INTERVAL_MS)
      else DEFAULT_INTERVAL_MS)"

text \<open>
  The reading of an argument's text, for comparison with \<open>atoi\<close>: white space \<open>ws\<close>, one
  optional sign, the longest run \<open>ds\<close> of decimal digits, and the remaining text. \<open>dval\<close>
  is the number a run of digits denotes, and \<open>arg_value\<close> the number sign and digits denote
  (0 when there is no digit).
\<close>

definition dval :: "string \<Rightarrow> int" where
  "dval ds = foldl (\<lambda>a c. 10 * a + digit_val c) 0 ds"

definition arg_value :: "string \<Rightarrow> string \<Rightarrow> int" where
  "arg_value sg ds = (if sg = ''-'' then - dval ds else dval ds)"

definition arg_parts :: "string \<Rightarrow> string \<Rightarrow> string \<Rightarrow> string \<Rightarrow> bool" where
  "arg_parts ws sg ds rest =
     (list_all isspace ws \<and> (sg = [] \<or> sg = ''+'' \<or> sg = ''-'') \<and> list_all isdigit ds
      \<and> (rest = [] \<or> \<not> isdigit (hd rest))
      \<and> (sg = [] \<and> ds = [] \<longrightarrow>
            rest = [] \<or> (\<not> isspace (hd rest) \<and> hd rest \<noteq> CHR ''+'' \<and> hd rest \<noteq> CHR ''-'')))"

text \<open>
  The argument of \<open>usleep (interval_ms * 1000)\<close>: the product is computed in \<open>int\<close>
  and converted to the 32-bit unsigned \<open>useconds_t\<close>. On the two's-complement targets
  the daemon runs on, an overflowing product wraps; the conversion then keeps the 32 bits.
\<close>

definition usleep_arg :: "int \<Rightarrow> nat" where
  "usleep_arg interval_ms = unat (word_of_int (interval_ms * 1000) :: 32 word)"

section \<open>Path allocation\<close>

text \<open>The fields of \<open>struct tm\<close> that \<open>main\<close> reads.\<close>

record tm =
  tm_year :: int
  tm_mon :: int
  tm_mday :: int
  tm_hour :: int

text \<open>\<open>snprintf (buf, n, ...)\<close> stores at most \<open>n - 1\<close> characters of the formatted text.\<close>

definition snprintf :: "nat \<Rightarrow> string \<Rightarrow> string" where
  "snprintf n s = take (n - 1) s"

definition digit_char :: "nat \<Rightarrow> char" where
  "digit_char d = ''0123456789'' ! d"

fun dec :: "nat \<Rightarrow> string" where
  "dec n = (if n < 10 then [digit_char n] else dec (n div 10) @ [digit_char (n mod 10)])"

declare dec.simps [simp del]

text \<open>
  The conversion \<open>%0<w>d\<close> of \<open>printf\<close>: the decimal digits, padded on the left with
  zeros to at least \<open>w\<close> characters, a minus sign counting as one of them.
\<close>

definition fmt_0d :: "nat \<Rightarrow> int \<Rightarrow> string" where
  "fmt_0d w v =
     (let ds = dec (nat \<bar>v\<bar>) in
      if v < 0 then CHR ''-'' # replicate (w - 1 - length ds) (CHR ''0'') @ ds
      else replicate (w - length ds) (CHR ''0'') @ ds)"

text \<open>\<open>char dirpath[512]\<close> and \<open>char filepath[1024]\<close> as \<open>main\<close> fills them.\<close>

definition dirpath_of :: "string \<Rightarrow> tm \<Rightarrow> string" where
  "dirpath_of home t =
     snprintf 512 (home @ ''/Screenshots/'' @ fmt_0d 4 (tm_year t + 1900) @ ''/''
                   @ fmt_0d 2 (tm_mon t + 1) @ ''/'' @ fmt_0d 2 (tm_mday t) @ ''/''
                   @ fmt_0d 2 (tm_hour t))"

definition filepath_of :: "string \<Rightarrow> string \<Rightarrow> string" where
  "filepath_of dirpath name = snprintf 1024 (dirpath @ ''/'' @ name @ ''.png'')"

text \<open>
  The spec's reading of the path, for comparison: a four-digit year and two-digit month,
  day and hour, digit by digit.
\<close>

definition digits2 :: "int \<Rightarrow> string" where
  "digits2 v = [digit_char (nat v div 10 mod 10), digit_char (nat v mod 10)]"

definition digits4 :: "int \<Rightarrow> string" where
  "digits4 v = [digit_char (nat v div 1000 mod 10), digit_char (nat v div 100 mod 10),
                digit_char (nat v div 10 mod 10), digit_char (nat v mod 10)]"

definition spec_path :: "string \<Rightarrow> tm \<Rightarrow> string \<Rightarrow> string" where
  "spec_path base t rand8 =
     base @ ''/Screenshots/'' @ digits4 (tm_year t + 1900) @ ''/'' @ digits2 (tm_mon t + 1)
       @ ''/'' @ digits2 (tm_mday t) @ ''/'' @ digits2 (tm_hour t) @ ''/'' @ rand8 @ ''.png''"

section \<open>The world outside the process\<close>

text \<open>
  The directories on disk, the number of \<open>rand\<close> calls made so far, and the calls made so
  far. A directory is named by its components; an absolute path starts with the component
  \<open>''/''\<close>. The root and the working directory always exist. The model has no symbolic
  links and does not resolve \<open>''..''\<close>; \<open>readonly\<close> are the directories \<open>mkdir\<close> may
  not write to.
\<close>

record world =
  dirs :: "string list set"
  readonly :: "string list set"
  rand_calls :: nat
  trace :: "event list"

definition emit :: "event list \<Rightarrow> world \<Rightarrow> world" where
  "emit es w = w\<lparr>trace := trace w @ es\<rparr>"

fun split_slash :: "string \<Rightarrow> string list" where
  "split_slash [] = [[]]"
| "split_slash (c # cs) =
     (if c = CHR ''/'' then [] # split_slash cs
      else (case split_slash cs of [] \<Rightarrow> [[c]] | x # xs \<Rightarrow> (c # x) # xs))"

definition path_key :: "string \<Rightarrow> string list" where
  "path_key p =
     (if p \<noteq> [] \<and> hd p = CHR ''/'' then [''/''] else [])
       @ filter (\<lambda>c. c \<noteq> [] \<and> c \<noteq> ''.'') (split_slash p)"

definition is_dir :: "world \<Rightarrow> string list \<Rightarrow> bool" where
  "is_dir w k = (k = [] \<or> k = [''/''] \<or> k \<in> dirs w)"

text \<open>\<open>mkdir(2)\<close>: the error it reports, if any, and its effect.\<close>

definition mkdir_errno :: "world \<Rightarrow> string \<Rightarrow> errno option" where
  "mkdir_errno w path =
     (let k = path_key path in
      if path = [] then Some ENOENT
      else if is_dir w k then Some EEXIST
      else if \<not> is_dir w (butlast k) then Some ENOENT
      else if butlast k \<in> readonly w then Some EACCES
      else None)"

definition mkdir :: "string \<Rightarrow> nat \<Rightarrow> world \<Rightarrow> int \<times> world" where
  "mkdir path mode w =
     (let r = mkdir_errno w path in
      (if r = None then 0 else - 1,
       w\<lparr>dirs := (if r = None then insert (path_key path) (dirs w) else dirs w),
         trace := trace w @ [EvMkdir path mode r]\<rparr>))"

text \<open>
  The loop of \<open>mkdir_p\<close>, entered with \<open>p = tmp + i\<close>. Writing \<open>'\0'\<close> at \<open>p\<close> makes
  \<open>tmp\<close> the string of its first \<open>i\<close> characters for the call; the slash is put back
  afterwards. The result of the call is dropped.
\<close>

function mkdir_p_loop :: "string \<Rightarrow> nat \<Rightarrow> nat \<Rightarrow> world \<Rightarrow> world" where
  "mkdir_p_loop tmp i mode w =
     (if i < length tmp
      then (if tmp ! i = CHR ''/''
            then mkdir_p_loop tmp (i + 1) mode (snd (mkdir (take i tmp) mode w))
            else mkdir_p_loop tmp (i + 1) mode w)
      else w)"
  by pat_completeness auto
termination
  by (relation "measure (\<lambda>(tmp, i, mode, w). length tmp - i)") auto

declare mkdir_p_loop.simps [simp del]

definition mkdir_p :: "string \<Rightarrow> nat \<Rightarrow> world \<Rightarrow> int \<times> world" where
  "mkdir_p path mode w =
     (let tmp = snprintf 512 path; len = length tmp in
      if len = 0 then (- 1, w)
      else let tmp = (if tmp ! (len - 1) = CHR ''/'' then take (len - 1) tmp else tmp)
           in mkdir tmp mode (mkdir_p_loop tmp 1 mode w))"

text \<open>
  \<open>random_hex\<close>: \<open>rnd n\<close> is what the \<open>n\<close>-th call of \<open>rand\<close> returns, a value from
  \<open>0\<close> to \<open>RAND_MAX\<close>. The buffer holds \<open>len\<close> characters; the terminating \<open>'\0'\<close>
  is implicit in a \<open>string\<close>.
\<close>

definition hex :: string where
  "hex = ''0123456789abcdef''"

function random_hex_loop ::
  "(nat \<Rightarrow> nat) \<Rightarrow> nat \<Rightarrow> nat \<Rightarrow> string \<Rightarrow> world \<Rightarrow> string \<times> world" where
  "random_hex_loop rnd i len out w =
     (if i < len
      then random_hex_loop rnd (i + 1) len (out[i := hex ! (rnd (rand_calls w) mod 16)])
             (w\<lparr>rand_calls := rand_calls w + 1, trace := trace w @ [EvRand]\<rparr>)
      else (out, w))"
  by pat_completeness auto
termination
  by (relation "measure (\<lambda>(rnd, i, len, out, w). len - i)") auto

declare random_hex_loop.simps [simp del]

definition random_hex :: "(nat \<Rightarrow> nat) \<Rightarrow> nat \<Rightarrow> world \<Rightarrow> string \<times> world" where
  "random_hex rnd len w = random_hex_loop rnd 0 len (replicate len (CHR 0x00)) w"

section \<open>The scheduler loop of \<open>main\<close>\<close>

text \<open>
  What the environment answers: the command line, \<open>HOME\<close>, whether \<open>XOpenDisplay\<close>
  succeeds, the values of \<open>rand\<close>, and for the \<open>k\<close>-th cycle the local time, the image
  \<open>XGetImage\<close> returns (\<open>None\<close> for \<open>NULL\<close>) and the answers given to \<open>save_png\<close>.
\<close>

record env =
  argv :: "string list"
  getenv_HOME :: "string option"
  XOpenDisplay_ok :: bool
  rand_seq :: "nat \<Rightarrow> nat"
  localtime_at :: "nat \<Rightarrow> tm"
  XGetImage_at :: "nat \<Rightarrow> XImage option"
  png_at :: "nat \<Rightarrow> png_faults"

definition mode_0755 :: nat where
  "mode_0755 = 493"

definition msg_screenshot_failed :: string where
  "msg_screenshot_failed = ''Screenshot failed'' @ [CHR 0x0A]"

definition msg_saved :: "string \<Rightarrow> string" where
  "msg_saved filepath = ''Saved '' @ filepath @ [CHR 0x0A]"

text \<open>
  The capture step of a pass: \<open>XGetImage\<close>, and for an image \<open>save_png\<close>, the message on
  success and \<open>XDestroyImage\<close>; for \<open>NULL\<close> the message on \<open>stderr\<close>.
\<close>

definition capture_step :: "env \<Rightarrow> nat \<Rightarrow> string \<Rightarrow> event list" where
  "capture_step e k filepath =
     (case XGetImage_at e k of
        None \<Rightarrow> [EvXGetImage False, EvStderr msg_screenshot_failed]
      | Some img \<Rightarrow>
          (case save_png (png_at e k) img filepath of
             (r, evs) \<Rightarrow>
               [EvXGetImage True] @ evs
               @ (if r = 0 then [EvStdout (msg_saved filepath)] else [])
               @ [EvXDestroyImage]))"

text \<open>What follows \<open>mkdir_p\<close> in the body of \<open>while (1)\<close>; the value of \<open>mkdir_p\<close> is not passed on.\<close>

definition capture_and_save :: "env \<Rightarrow> int \<Rightarrow> nat \<Rightarrow> string \<Rightarrow> world \<Rightarrow> world" where
  "capture_and_save e interval_ms k dirpath w1 =
     (case random_hex (rand_seq e) RANDOM_NAME_LEN w1 of
        (name, w2) \<Rightarrow>
          emit [EvUsleep (usleep_arg interval_ms)]
            (emit (capture_step e k (filepath_of dirpath name)) w2))"

text \<open>One pass through the body of \<open>while (1)\<close>, the \<open>k\<close>-th.\<close>

definition iteration :: "env \<Rightarrow> string \<Rightarrow> int \<Rightarrow> nat \<Rightarrow> world \<Rightarrow> world" where
  "iteration e home interval_ms k w =
     (let dirpath = dirpath_of home (localtime_at e k);
          w1 = snd (mkdir_p dirpath mode_0755 (emit [EvLocaltime] w))
      in capture_and_save e interval_ms k dirpath w1)"

text \<open>The calls made by the \<open>k\<close>-th pass.\<close>

definition iteration_events :: "env \<Rightarrow> string \<Rightarrow> int \<Rightarrow> nat \<Rightarrow> world \<Rightarrow> event list" where
  "iteration_events e home interval_ms k w =
     drop (length (trace w)) (trace (iteration e home interval_ms k w))"

text \<open>
  \<open>while (1)\<close> has no \<open>break\<close> and no \<open>return\<close>: the loop function calls itself after every
  pass. Its value would be the world in which the loop is left; \<open>None\<close> is a loop that
  is never left.
\<close>

partial_function (option) main_loop :: "env \<Rightarrow> string \<Rightarrow> int \<Rightarrow> nat \<Rightarrow> world \<Rightarrow> world option" where
  "main_loop e home interval_ms k w =
     main_loop e home interval_ms (Suc k) (iteration e home interval_ms k w)"

definition home_of :: "env \<Rightarrow> string" where
  "home_of e = (case getenv_HOME e of None \<Rightarrow> ''.'' | Some h \<Rightarrow> h)"

text \<open>
  \<open>main\<close>: its value is the exit status, if it returns. The statements after the loop
  (\<open>XCloseDisplay\<close>, \<open>return 0\<close>) run when the loop is left. The size of the root
  window (\<open>XGetWindowAttributes\<close>) and the seed (\<open>srand\<close>) do not appear: what
  \<open>XGetImage\<close> and \<open>rand\<close> return is given by the environment.
\<close>

definition main :: "env \<Rightarrow> world \<Rightarrow> int option" where
  "main e w =
     (let interval_ms = interval_of_args (argv e); home = home_of e in
      if \<not> XOpenDisplay_ok e then Some 1
      else (case main_loop e home interval_ms 0 w of
              None \<Rightarrow> None
            | Some w' \<Rightarrow> Some 0))"

text \<open>The world after the first \<open>n\<close> passes.\<close>

fun run :: "env \<Rightarrow> string \<Rightarrow> int \<Rightarrow> nat \<Rightarrow> world \<Rightarrow> world" where
  "run e home interval_ms 0 w = w"
| "run e home interval_ms (Suc n) w = iteration e home interval_ms n (run e home interval_ms n w)"

text \<open>Kinds of calls.\<close>

fun is_mkdir :: "event \<Rightarrow> bool" where
  "is_mkdir (EvMkdir p m r) = True"
| "is_mkdir ev = False"

fun is_capture :: "event \<Rightarrow> bool" where
  "is_capture (EvXGetImage ok) = True"
| "is_capture ev = False"

fun is_stdout :: "event \<Rightarrow> bool" where
  "is_stdout (EvStdout s) = True"
| "is_stdout ev = False"

fun is_usleep :: "event \<Rightarrow> bool" where
  "is_usleep (EvUsleep n) = True"
| "is_usleep ev = False"

text \<open>The calls \<open>save_png\<close> makes: file, heap, libpng and \<open>perror\<close>.\<close>

fun is_encoder :: "event \<Rightarrow> bool" where
  "is_encoder (EvFopen p ok) = True"
| "is_encoder (EvPerror s) = True"
| "is_encoder EvFclose = True"
| "is_encoder (EvPngCreateWrite ok) = True"
| "is_encoder (EvPngCreateInfo ok) = True"
| "is_encoder EvPngDestroyWrite = True"
| "is_encoder EvPngInitIo = True"
| "is_encoder (EvPngSetIHDR w h ok) = True"
| "is_encoder (EvPngWriteInfo ok) = True"
| "is_encoder (EvMalloc n ok) = True"
| "is_encoder EvFree = True"
| "is_encoder (EvPngWriteRow row ok) = True"
| "is_encoder (EvPngWriteEnd ok) = True"
| "is_encoder ev = False"

section \<open>Views of the loop used in the proofs\<close>

text \<open>
  The arguments of the \<open>mkdir\<close> calls that the loop of \<open>mkdir_p\<close> makes from position
  \<open>i\<close> on: the prefixes of \<open>tmp\<close> that end before a slash.
\<close>

definition loop_calls :: "string \<Rightarrow> nat \<Rightarrow> string list" where
  "loop_calls tmp i = map (\<lambda>j. take j tmp) (filter (\<lambda>j. tmp ! j = CHR ''/'') [i..<length tmp])"

definition mkdir_step :: "nat \<Rightarrow> world \<Rightarrow> string \<Rightarrow> world" where
  "mkdir_step mode w p = snd (mkdir p mode w)"

text \<open>The buffer \<open>tmp\<close> of \<open>mkdir_p\<close> when the loop starts, and all calls of \<open>mkdir\<close> in order.\<close>

definition mkdir_p_tmp :: "string \<Rightarrow> string" where
  "mkdir_p_tmp path =
     (let tmp = snprintf 512 path; len = length tmp in
      if tmp ! (len - 1) = CHR ''/'' then take (len - 1) tmp else tmp)"

definition mkdir_p_calls :: "string \<Rightarrow> string list" where
  "mkdir_p_calls path =
     (if snprintf 512 path = [] then []
      else loop_calls (mkdir_p_tmp path) 1 @ [mkdir_p_tmp path])"

definition mkdir_p_events :: "string \<Rightarrow> nat \<Rightarrow> world \<Rightarrow> event list" where
  "mkdir_p_events path mode w = drop (length (trace w)) (trace (snd (mkdir_p path mode w)))"

definition key_le :: "string \<Rightarrow> string \<Rightarrow> bool" where
  "key_le p q = (length (path_key p) \<le> length (path_key q))"

text \<open>The file name a pass uses: the name depends on the \<open>rand\<close> calls made before the pass.\<close>

definition iteration_filepath :: "env \<Rightarrow> string \<Rightarrow> nat \<Rightarrow> world \<Rightarrow> string" where
  "iteration_filepath e home k w =
     filepath_of (dirpath_of home (localtime_at e k))
       (fst (random_hex (rand_seq e) RANDOM_NAME_LEN w))"

section \<open>Concrete inputs\<close>

definition no_faults :: png_faults where
  "no_faults = \<lparr>fopen_fails = False, create_write_fails = False, create_info_fails = False,
                set_ihdr_fails = False, write_info_fails = False, malloc_fails = False,
                write_row_fails = (\<lambda>y. False), write_end_fails = False,
                junk = (\<lambda>i. 0)\<rparr>"

text \<open>\<open>png_write_row\<close> fails on the first row, as it does when the disk is full.\<close>

definition row_write_fault :: png_faults where
  "row_write_fault = no_faults\<lparr>write_row_fails := (\<lambda>y. y = 0)\<rparr>"

definition tm_2026 :: tm where
  "tm_2026 = \<lparr>tm_year = 126, tm_mon = 9, tm_mday = 30, tm_hour = 16\<rparr>"

definition world0 :: world where
  "world0 = \<lparr>dirs = {[''/'', ''home''], [''/'', ''home'', ''u'']}, readonly = {},
             rand_calls = 0, trace = []\<rparr>"

text \<open>The same disk once the directories of that hour exist.\<close>

definition world_full :: world where
  "world_full = world0\<lparr>dirs :=
     {[''/'', ''home''], [''/'', ''home'', ''u''], [''/'', ''home'', ''u'', ''Screenshots''],
      [''/'', ''home'', ''u'', ''Screenshots'', ''2026''],
      [''/'', ''home'', ''u'', ''Screenshots'', ''2026'', ''10''],
      [''/'', ''home'', ''u'', ''Screenshots'', ''2026'', ''10'', ''30''],
      [''/'', ''home'', ''u'', ''Screenshots'', ''2026'', ''10'', ''30'', ''16'']}\<rparr>"

definition frame_1x1 :: XImage where
  "frame_1x1 = \<lparr>width = 1, height = 1, red_mask = 0xFF0000, green_mask = 0xFF00,
                blue_mask = 0xFF, XGetPixel = (\<lambda>x y. 0x112233)\<rparr>"

text \<open>
  A run on 30 October 2026, 16 h, with \<open>HOME=/home/u\<close>: the first capture fails, the later
  ones succeed.
\<close>

definition env0 :: env where
  "env0 = \<lparr>argv = [''screenshot_daemon'', ''250''], getenv_HOME = Some ''/home/u'',
            XOpenDisplay_ok = True, rand_seq = (\<lambda>n. 7 * n + 3),
            localtime_at = (\<lambda>k. tm_2026),
            XGetImage_at = (\<lambda>k. if k = 0 then None else Some frame_1x1),
            png_at = (\<lambda>k. no_faults)\<rparr>"

text \<open>The same run with a \<open>HOME\<close> of 500 characters.\<close>

definition env_long :: env where
  "env_long = env0\<lparr>getenv_HOME := Some (replicate 500 (CHR ''a''))\<rparr>"

section \<open>Pixel normalisation: results\<close>

lemma length_store_pixel [simp]: "length (store_pixel img x p row) = length row"
  by (simp add: store_pixel_def)

lemma length_fill_row [simp]: "length (fill_row img y x row) = length row"
  by (induction img y x row rule: fill_row.induct) (simp add: fill_row.simps)

text \<open>Columns to the left of the loop position are no longer touched.\<close>

lemma fill_row_keeps:
  "0 \<le> x \<Longrightarrow> i < nat (3 * x) \<Longrightarrow> fill_row img y x row ! i = row ! i"
proof (induction img y x row rule: fill_row.induct)
  case (1 img y x row)
  show ?case
  proof (cases "x < width img")
    case True
    have "fill_row img y x row ! i
          = fill_row img y (x + 1) (store_pixel img x (XGetPixel img x y) row) ! i"
      using True by (subst fill_row.simps) simp
    also have "\<dots> = store_pixel img x (XGetPixel img x y) row ! i"
      using "1.IH" [OF True] "1.prems" by simp
    also have "\<dots> = row ! i"
      using "1.prems" by (simp add: store_pixel_def)
    finally show ?thesis .
  next
    case False
    then show ?thesis by (subst fill_row.simps) simp
  qed
qed

lemma fill_row_at:
  assumes "x0 \<le> x" "0 \<le> x0" "x < width img" "length row = nat (3 * width img)"
  shows "fill_row img y x0 row ! nat (3 * x)
           = ucast (drop_bit 16 (XGetPixel img x y AND red_mask img))
       \<and> fill_row img y x0 row ! nat (3 * x + 1)
           = ucast (drop_bit 8 (XGetPixel img x y AND green_mask img))
       \<and> fill_row img y x0 row ! nat (3 * x + 2)
           = ucast (XGetPixel img x y AND blue_mask img)"
  using assms
proof (induction img y x0 row rule: fill_row.induct)
  case (1 img y x0 row)
  let ?row' = "store_pixel img x0 (XGetPixel img x0 y) row"
  have lt: "x0 < width img" using "1.prems" by simp
  have unf: "fill_row img y x0 row = fill_row img y (x0 + 1) ?row'"
    using lt by (subst fill_row.simps) simp
  show ?case
  proof (cases "x0 = x")
    case True
    have k: "\<And>i. i < nat (3 * (x0 + 1)) \<Longrightarrow> fill_row img y (x0 + 1) ?row' ! i = ?row' ! i"
      using "1.prems" by (intro fill_row_keeps) simp_all
    obtain n where n: "nat (3 * x) = n" "nat (3 * x + 1) = n + 1" "nat (3 * x + 2) = n + 2"
      "nat (3 * (x0 + 1)) = n + 3"
      using True "1.prems" by (simp add: nat_add_distrib)
    have b: "n + 2 < length row"
      using "1.prems" n by linarith
    have r0: "fill_row img y (x0 + 1) ?row' ! n = ?row' ! n"
      and r1: "fill_row img y (x0 + 1) ?row' ! (n + 1) = ?row' ! (n + 1)"
      and r2: "fill_row img y (x0 + 1) ?row' ! (n + 2) = ?row' ! (n + 2)"
      using n by (simp_all add: k)
    have s: "?row' = row[n := ucast (drop_bit 16 (XGetPixel img x y AND red_mask img)),
         n + 1 := ucast (drop_bit 8 (XGetPixel img x y AND green_mask img)),
         n + 2 := ucast (XGetPixel img x y AND blue_mask img)]"
      unfolding store_pixel_def using n True by simp
    have "?row' ! n = ucast (drop_bit 16 (XGetPixel img x y AND red_mask img))"
      "?row' ! (n + 1) = ucast (drop_bit 8 (XGetPixel img x y AND green_mask img))"
      "?row' ! (n + 2) = ucast (XGetPixel img x y AND blue_mask img)"
      unfolding s using b by simp_all
    then show ?thesis
      unfolding unf n r0 r1 r2 by simp
  next
    case False
    then have "x0 + 1 \<le> x" using "1.prems" by simp
    then show ?thesis
      unfolding unf using "1.IH" [OF lt] "1.prems" by simp
  qed
qed

text \<open>
  Claim C1. For every pixel (column \<open>x\<close>, row \<open>y\<close>) of a frame, the row buffer that the
  inner loop of \<open>save_png\<close> produces holds at bytes \<open>3x\<close>, \<open>3x+1\<close>, \<open>3x+2\<close> the red,
  green and blue channel: the packed pixel ANDed with the channel's mask and shifted
  right by 16, 8 and 0 bits, kept as a byte. With masks \<open>0xFF0000\<close>, \<open>0xFF00\<close>,
  \<open>0xFF\<close> and pixel \<open>0x112233\<close> the three bytes are \<open>0x11\<close>, \<open>0x22\<close>, \<open>0x33\<close>.
\<close>

theorem normalize_pixel_rgb:
  assumes "0 \<le> x" "x < width img" "length row = nat (3 * width img)"
  shows "fill_row img y 0 row ! nat (3 * x)
           = ucast (drop_bit 16 (XGetPixel img x y AND red_mask img))
       \<and> fill_row img y 0 row ! nat (3 * x + 1)
           = ucast (drop_bit 8 (XGetPixel img x y AND green_mask img))
       \<and> fill_row img y 0 row ! nat (3 * x + 2)
           = ucast (drop_bit 0 (XGetPixel img x y AND blue_mask img))
       \<and> (red_mask img = 0xFF0000 \<and> green_mask img = 0xFF00 \<and> blue_mask img = 0xFF
            \<and> XGetPixel img x y = 0x112233
          \<longrightarrow> fill_row img y 0 row ! nat (3 * x) = 0x11
            \<and> fill_row img y 0 row ! nat (3 * x + 1) = 0x22
            \<and> fill_row img y 0 row ! nat (3 * x + 2) = 0x33)"
proof -
  note h = fill_row_at [OF assms(1) order_refl assms(2) assms(3), of y]
  show ?thesis using h by simp
qed

theorem normalize_pixel_rgb_witness:
  "(0::int) \<le> 0 \<and> 0 < width frame_1x1
   \<and> length [0, 0, 0 :: png_byte] = nat (3 * width frame_1x1)
   \<and> fill_row frame_1x1 0 0 [0, 0, 0] ! 0 = 0x11
   \<and> fill_row frame_1x1 0 0 [0, 0, 0] ! 1 = 0x22
   \<and> fill_row frame_1x1 0 0 [0, 0, 0] ! 2 = 0x33"
  using normalize_pixel_rgb [of 0 frame_1x1 "[0, 0, 0]" 0]
  by (simp add: frame_1x1_def)

text \<open>Every row handed to \<open>png_write_row\<close> is a row buffer filled by the inner loop.\<close>

lemma write_rows_rows:
  "EvPngWriteRow r ok \<in> set (snd (write_rows flt img y row)) \<Longrightarrow>
     \<exists>y' row'. y \<le> y' \<and> y' < height img \<and> length row' = length row
        \<and> r = fill_row img y' 0 row'"
proof (induction flt img y row rule: write_rows.induct)
  case (1 flt img y row)
  have lt: "y < height img"
    using "1.prems" by (subst (asm) write_rows.simps) (simp split: if_splits)
  let ?row = "fill_row img y 0 row"
  show ?case
  proof (cases "r = ?row")
    case True
    then show ?thesis using lt by auto
  next
    case False
    then have nf: "\<not> write_row_fails flt y"
      and "EvPngWriteRow r ok \<in> set (snd (write_rows flt img (y + 1) ?row))"
      using "1.prems" lt
      by (subst (asm) write_rows.simps, simp add: Let_def case_prod_beta split: if_splits)+
    from "1.IH" [OF lt refl nf this(2)] obtain y' row' where
      "y + 1 \<le> y'" "y' < height img" "length row' = length ?row" "r = fill_row img y' 0 row'"
      by blast
    then show ?thesis by (intro exI [of _ y'] exI [of _ row']) simp
  qed
qed

section \<open>The interval argument: results\<close>

lemma digit_char_props:
  assumes "d < 10"
  shows "isdigit (digit_char d)" "digit_val (digit_char d) = int d"
    "\<not> isspace (digit_char d)" "digit_char d \<noteq> CHR ''-''" "digit_char d \<noteq> CHR ''+''"
proof -
  from assms have "d \<in> {0, 1, 2, 3, 4, 5, 6, 7, 8, 9}" by auto
  then show "isdigit (digit_char d)" "digit_val (digit_char d) = int d"
    "\<not> isspace (digit_char d)" "digit_char d \<noteq> CHR ''-''" "digit_char d \<noteq> CHR ''+''"
    by (auto simp: digit_char_def isdigit_def digit_val_def isspace_def)
qed

lemma dec_digits: "c \<in> set (dec n) \<Longrightarrow> isdigit c"
  by (induction n arbitrary: c rule: dec.induct) (subst (asm) dec.simps, auto simp: digit_char_props split: if_splits)

lemma dec_nonempty: "dec n \<noteq> []"
  by (subst dec.simps) simp

lemma hd_dec: "\<exists>d < 10. hd (dec n) = digit_char d"
proof (induction n rule: dec.induct)
  case (1 n)
  show ?case
  proof (cases "n < 10")
    case True
    then show ?thesis by (subst dec.simps) auto
  next
    case False
    then have "hd (dec n) = hd (dec (n div 10))"
      by (subst dec.simps) (simp add: dec_nonempty)
    then show ?thesis using 1 False by simp
  qed
qed

lemma foldl_dec: "foldl (\<lambda>a c. 10 * a + digit_val c) 0 (dec n) = int n"
proof (induction n rule: dec.induct)
  case (1 n)
  show ?case
  proof (cases "n < 10")
    case True
    then show ?thesis by (subst dec.simps) (simp add: digit_char_props)
  next
    case False
    have "10 * int (n div 10) + int (n mod 10) = int n" by presburger
    then show ?thesis using 1 False by (subst dec.simps) (simp add: digit_char_props)
  qed
qed

lemma takeWhile_dec: "takeWhile isdigit (dec n) = dec n"
  by (simp add: dec_digits)

lemma after_space_dec: "after_space (dec n) = dec n"
proof -
  obtain d where "d < 10" "hd (dec n) = digit_char d" using hd_dec by blast
  then have "\<not> isspace (hd (dec n))" by (simp add: digit_char_props)
  then show ?thesis unfolding after_space_def
    using dec_nonempty [of n] by (cases "dec n") simp_all
qed

lemma digits_read_dec: "digits_read (dec n) = dec n" and not_negative_dec: "\<not> is_negative (dec n)"
proof -
  obtain d where d: "d < 10" "hd (dec n) = digit_char d" using hd_dec by blast
  show "digits_read (dec n) = dec n"
    unfolding digits_read_def using d by (simp add: after_space_dec digit_char_props takeWhile_dec)
  show "\<not> is_negative (dec n)"
    unfolding is_negative_def using d by (simp add: after_space_dec digit_char_props)
qed

lemma digits_read_minus_dec: "digits_read (CHR ''-'' # dec n) = dec n"
  and negative_minus_dec: "is_negative (CHR ''-'' # dec n)"
  by (simp_all add: digits_read_def is_negative_def after_space_def isspace_def takeWhile_dec)

lemma sint32_id: "- (2 ^ 31) \<le> k \<Longrightarrow> k < 2 ^ 31 \<Longrightarrow> sint (word_of_int k :: 32 word) = k"
  by (simp add: signed_of_int signed_take_bit_int_eq_self)

lemma atoi_dec: "n < 2 ^ 31 \<Longrightarrow> atoi (dec n) = int n"
proof -
  assume n: "n < 2 ^ 31"
  then have i: "int n < 2 ^ 31" by (metis of_nat_less_iff of_nat_numeral of_nat_power)
  have "strtol10 (dec n) = int n"
    using i by (simp add: strtol10_def digits_read_dec not_negative_dec foldl_dec)
  moreover have "sint (word_of_int (int n) :: 32 word) = int n"
    by (rule sint32_id) (use i in simp_all)
  ultimately show ?thesis by (simp only: atoi_def)
qed

lemma atoi_minus_dec: "n \<le> 2 ^ 31 \<Longrightarrow> atoi (CHR ''-'' # dec n) = - int n"
proof -
  assume n: "n \<le> 2 ^ 31"
  then have i: "int n \<le> 2 ^ 31" by (metis of_nat_le_iff of_nat_numeral of_nat_power)
  have "strtol10 (CHR ''-'' # dec n) = - int n"
    using i by (simp add: strtol10_def digits_read_minus_dec negative_minus_dec foldl_dec)
  moreover have "sint (word_of_int (- int n) :: 32 word) = - int n"
    by (rule sint32_id) (use i in simp_all)
  ultimately show ?thesis by (simp only: atoi_def)
qed

lemma atoi_no_digits: "digits_read a = [] \<Longrightarrow> atoi a = 0"
  by (simp add: atoi_def strtol10_def)

lemma isdigit_not_space: "isdigit c \<Longrightarrow> \<not> isspace c \<and> c \<noteq> CHR ''+'' \<and> c \<noteq> CHR ''-''"
  by (auto simp: isdigit_def isspace_def)

lemma takeWhile_digits: 
  "list_all isdigit ds \<Longrightarrow> rest = [] \<or> \<not> isdigit (hd rest) \<Longrightarrow> takeWhile isdigit (ds @ rest) = ds"
  by (cases rest) (auto simp: list_all_iff takeWhile_append2)

lemma parts_after_space:
  assumes "arg_parts ws sg ds rest"
  shows "after_space (ws @ sg @ ds @ rest) = sg @ ds @ rest"
proof -
  have ws: "\<forall>c \<in> set ws. isspace c" using assms by (simp add: arg_parts_def list_all_iff)
  have "sg @ ds @ rest = [] \<or> \<not> isspace (hd (sg @ ds @ rest))"
  proof (cases "sg = []")
    case False
    then show ?thesis using assms by (auto simp: arg_parts_def isspace_def)
  next
    case True
    note s = this
    show ?thesis
    proof (cases ds)
      case Nil
      then show ?thesis using assms s by (auto simp: arg_parts_def)
    next
      case (Cons d ds')
      then have "isdigit d" using assms by (simp add: arg_parts_def)
      then show ?thesis using s Cons isdigit_not_space by simp
    qed
  qed
  then show ?thesis
    unfolding after_space_def using ws
    by (cases "sg @ ds @ rest") (simp_all add: dropWhile_append3 dropWhile_append2)
qed

lemma parts_negative:
  assumes "arg_parts ws sg ds rest"
  shows "is_negative (ws @ sg @ ds @ rest) \<longleftrightarrow> sg = ''-''"
proof -
  note as = parts_after_space [OF assms]
  consider "sg = ''-''" | "sg = ''+''" | "sg = []" "ds \<noteq> []" | "sg = []" "ds = []"
    using assms by (auto simp: arg_parts_def)
  then show ?thesis
  proof cases
    case 1
    then show ?thesis unfolding is_negative_def as by simp
  next
    case 2
    then show ?thesis unfolding is_negative_def as by simp
  next
    case 3
    then obtain d ds' where d: "ds = d # ds'" by (cases ds) auto
    then have "isdigit d" using assms by (simp add: arg_parts_def)
    then show ?thesis using 3 d isdigit_not_space [of d]
      unfolding is_negative_def as by simp
  next
    case 4
    then show ?thesis using assms
      unfolding is_negative_def as by (auto simp: arg_parts_def)
  qed
qed

lemma parts_digits:
  assumes "arg_parts ws sg ds rest"
  shows "digits_read (ws @ sg @ ds @ rest) = ds"
proof -
  note as = parts_after_space [OF assms]
  have t: "takeWhile isdigit (ds @ rest) = ds"
    using assms by (intro takeWhile_digits) (simp_all add: arg_parts_def)
  consider "sg = ''-''" | "sg = ''+''" | "sg = []" "ds \<noteq> []" | "sg = []" "ds = []"
    using assms by (auto simp: arg_parts_def)
  then show ?thesis
  proof cases
    case 1
    then show ?thesis unfolding digits_read_def as Let_def using t by simp
  next
    case 2
    then show ?thesis unfolding digits_read_def as Let_def using t by simp
  next
    case 3
    then obtain d ds' where d: "ds = d # ds'" by (cases ds) auto
    then have "isdigit d" using assms by (simp add: arg_parts_def)
    then have "hd (ds @ rest) \<noteq> CHR ''-''" "hd (ds @ rest) \<noteq> CHR ''+''"
      using d isdigit_not_space [of d] by simp_all
    then show ?thesis using 3 t
      unfolding digits_read_def as Let_def by simp
  next
    case 4
    then have "rest = [] \<or> (hd rest \<noteq> CHR ''+'' \<and> hd rest \<noteq> CHR ''-'')"
      using assms by (auto simp: arg_parts_def)
    then show ?thesis using 4 t
      unfolding digits_read_def as Let_def by auto
  qed
qed

lemma atoi_parts:
  assumes "arg_parts ws sg ds rest" "- (2 ^ 31) \<le> arg_value sg ds" "arg_value sg ds < 2 ^ 31"
  shows "atoi (ws @ sg @ ds @ rest) = arg_value sg ds"
proof -
  have "strtol10 (ws @ sg @ ds @ rest) = arg_value sg ds"
    using assms(2,3)
    unfolding strtol10_def parts_digits [OF assms(1)] parts_negative [OF assms(1)] Let_def
    by (auto simp: arg_value_def dval_def split: if_splits)
  moreover have "sint (word_of_int (arg_value sg ds) :: 32 word) = arg_value sg ds"
    by (rule sint32_id) (use assms in simp_all)
  ultimately show ?thesis by (simp only: atoi_def)
qed

lemma hd_dropWhile_not: "dropWhile P xs \<noteq> [] \<Longrightarrow> \<not> P (hd (dropWhile P xs))"
  by (metis hd_dropWhile)

lemma arg_parts_exist: "\<exists>ws sg ds rest. a = ws @ sg @ ds @ rest \<and> arg_parts ws sg ds rest"
proof -
  let ?ws = "takeWhile isspace a" and ?s = "dropWhile isspace a"
  have a: "a = ?ws @ ?s" by simp
  have ws: "list_all isspace ?ws" by (simp add: list_all_iff) (meson set_takeWhileD)
  have d: "list_all isdigit (takeWhile isdigit t)" for t
    by (simp add: list_all_iff) (meson set_takeWhileD)
  have r: "dropWhile isdigit t = [] \<or> \<not> isdigit (hd (dropWhile isdigit t))" for t
    using hd_dropWhile_not by blast
  show ?thesis
  proof (cases "?s \<noteq> [] \<and> (hd ?s = CHR ''+'' \<or> hd ?s = CHR ''-'')")
    case True
    let ?t = "tl ?s"
    have s: "?s = [hd ?s] @ takeWhile isdigit ?t @ dropWhile isdigit ?t"
      using True by simp
    have "arg_parts ?ws [hd ?s] (takeWhile isdigit ?t) (dropWhile isdigit ?t)"
      using True ws d r by (auto simp: arg_parts_def)
    moreover have "a = ?ws @ [hd ?s] @ takeWhile isdigit ?t @ dropWhile isdigit ?t"
      using s a by metis
    ultimately show ?thesis by blast
  next
    case False
    have s: "?s = takeWhile isdigit ?s @ dropWhile isdigit ?s" by simp
    have sp: "?s = [] \<or> \<not> isspace (hd ?s)" using hd_dropWhile_not by blast
    have "takeWhile isdigit ?s = [] \<Longrightarrow> dropWhile isdigit ?s = ?s"
      by (metis append_Nil takeWhile_dropWhile_id)
    then have "arg_parts ?ws [] (takeWhile isdigit ?s) (dropWhile isdigit ?s)"
      using False ws d r sp by (auto simp: arg_parts_def)
    moreover have "a = ?ws @ [] @ takeWhile isdigit ?s @ dropWhile isdigit ?s"
      using a by simp
    ultimately show ?thesis by blast
  qed
qed


lemma dval_dec: "dval (dec n) = int n"
  by (simp add: dval_def foldl_dec)

text \<open>
  Claim C4, as amended. Without an argument the interval is the default, 1000 ms. Every
  argument is white space, one optional sign, the longest run of decimal digits and the
  remaining text. When the number that sign and digits denote (0 without digits) is from
  \<open>-2147483648\<close> to 0, the interval is the default; when it is a positive \<open>v\<close> of at
  most 2147483647, the interval is \<open>v\<close>. The digits \<open>dec n\<close> denote \<open>n\<close>.
\<close>

theorem interval_argument:
  "interval_of_args [] = 1000 \<and> interval_of_args [prog] = 1000
   \<and> (\<exists>ws sg ds rest. a = ws @ sg @ ds @ rest \<and> arg_parts ws sg ds rest)
   \<and> (arg_parts ws sg ds rest \<and> - (2 ^ 31) \<le> arg_value sg ds \<and> arg_value sg ds \<le> 0
        \<longrightarrow> interval_of_args (prog # (ws @ sg @ ds @ rest) # args) = 1000)
   \<and> (arg_parts ws sg ds rest \<and> 0 < arg_value sg ds \<and> arg_value sg ds < 2 ^ 31
        \<longrightarrow> interval_of_args (prog # (ws @ sg @ ds @ rest) # args) = arg_value sg ds)
   \<and> dval (dec n) = int n"
proof (intro conjI impI)
  show "interval_of_args [] = 1000" "interval_of_args [prog] = 1000"
    by (simp_all add: interval_of_args_def DEFAULT_INTERVAL_MS_def)
  show "\<exists>ws sg ds rest. a = ws @ sg @ ds @ rest \<and> arg_parts ws sg ds rest"
    by (rule arg_parts_exist)
  show "dval (dec n) = int n" by (rule dval_dec)
next
  assume h: "arg_parts ws sg ds rest \<and> - (2 ^ 31) \<le> arg_value sg ds \<and> arg_value sg ds \<le> 0"
  then have "atoi (ws @ sg @ ds @ rest) = arg_value sg ds"
    by (intro atoi_parts) simp_all
  then show "interval_of_args (prog # (ws @ sg @ ds @ rest) # args) = 1000"
    using h by (simp add: interval_of_args_def DEFAULT_INTERVAL_MS_def)
next
  assume h: "arg_parts ws sg ds rest \<and> 0 < arg_value sg ds \<and> arg_value sg ds < 2 ^ 31"
  then have "atoi (ws @ sg @ ds @ rest) = arg_value sg ds"
    by (intro atoi_parts) simp_all
  then show "interval_of_args (prog # (ws @ sg @ ds @ rest) # args) = arg_value sg ds"
    using h by (simp add: interval_of_args_def)
qed

theorem interval_argument_witness:
  "arg_parts [] [] [] ''abc'' \<and> arg_value [] [] = 0
   \<and> interval_of_args [''screenshot_daemon'', ''abc''] = 1000
   \<and> arg_parts [] [] ''0'' [] \<and> arg_value [] ''0'' = 0
   \<and> interval_of_args [''screenshot_daemon'', ''0''] = 1000
   \<and> arg_parts '' '' ''-'' ''5'' ''x'' \<and> arg_value ''-'' ''5'' = - 5
   \<and> interval_of_args [''screenshot_daemon'', '' -5x''] = 1000
   \<and> arg_parts [] [] ''250'' [] \<and> arg_value [] ''250'' = 250
   \<and> interval_of_args [''screenshot_daemon'', ''250''] = 250
   \<and> arg_parts [] ''+'' ''12'' ''abc'' \<and> arg_value ''+'' ''12'' = 12
   \<and> interval_of_args [''screenshot_daemon'', ''+12abc''] = 12"
proof -
  have p: "arg_parts [] [] [] ''abc''" "arg_parts [] [] ''0'' []" "arg_parts '' '' ''-'' ''5'' ''x''"
    "arg_parts [] [] ''250'' []" "arg_parts [] ''+'' ''12'' ''abc''"
    by (simp_all add: arg_parts_def isspace_def isdigit_def)
  have v: "arg_value [] [] = 0" "arg_value [] ''0'' = 0" "arg_value ''-'' ''5'' = - 5"
    "arg_value [] ''250'' = 250" "arg_value ''+'' ''12'' = 12"
    by (simp_all add: arg_value_def dval_def digit_val_def)
  show ?thesis
    using interval_argument [where ws = "[]" and sg = "[]" and ds = "[]" and rest = "''abc''"
          and prog = "''screenshot_daemon''" and args = "[]"]
      interval_argument [where ws = "[]" and sg = "[]" and ds = "''0''" and rest = "[]"
          and prog = "''screenshot_daemon''" and args = "[]"]
      interval_argument [where ws = "'' ''" and sg = "''-''" and ds = "''5''" and rest = "''x''"
          and prog = "''screenshot_daemon''" and args = "[]"]
      interval_argument [where ws = "[]" and sg = "[]" and ds = "''250''" and rest = "[]"
          and prog = "''screenshot_daemon''" and args = "[]"]
      interval_argument [where ws = "[]" and sg = "''+''" and ds = "''12''" and rest = "''abc''"
          and prog = "''screenshot_daemon''" and args = "[]"]
    by (simp add: p v)
qed

text \<open>
  Claim C4 as stated fails outside the range of \<open>int\<close> and for text after the digits. The
  argument \<open>-2147483649\<close> denotes a negative number and gives the interval 2147483647,
  not the default; \<open>2147483648\<close> denotes a positive number and gives the default; and
  \<open>12abc\<close>, which is not a number, gives 12.
\<close>

theorem interval_argument_out_of_range:
  "arg_parts [] ''-'' ''2147483649'' [] \<and> arg_value ''-'' ''2147483649'' < 0
   \<and> interval_of_args [''screenshot_daemon'', ''-2147483649''] = 2147483647
   \<and> interval_of_args [''screenshot_daemon'', ''-2147483649''] \<noteq> 1000
   \<and> arg_parts [] [] ''2147483648'' [] \<and> arg_value [] ''2147483648'' = 2147483648
   \<and> interval_of_args [''screenshot_daemon'', ''2147483648''] = 1000
   \<and> \<not> list_all isdigit ''12abc''
   \<and> interval_of_args [''screenshot_daemon'', ''12abc''] = 12"
  by (simp add: arg_parts_def arg_value_def dval_def interval_of_args_def atoi_def strtol10_def
      digits_read_def is_negative_def after_space_def isspace_def isdigit_def digit_val_def
      DEFAULT_INTERVAL_MS_def)

section \<open>The encoder: results\<close>

lemma write_rows_keeps_resources:
  "fp_open b (snd (write_rows flt img y row)) = b"
  "row_live c (snd (write_rows flt img y row)) = c"
proof (induction flt img y row rule: write_rows.induct)
  case (1 flt img y row)
  {
    case 1
    show ?case using "1.IH"(1)
      by (subst write_rows.simps) (simp add: Let_def case_prod_beta)
  next
    case 2
    show ?case using "1.IH"(2)
      by (subst write_rows.simps) (simp add: Let_def case_prod_beta)
  }
qed

lemma fp_open_append: "fp_open b (xs @ ys) = fp_open (fp_open b xs) ys"
  by (induction b xs rule: fp_open.induct) simp_all

lemma row_live_append: "row_live b (xs @ ys) = row_live (row_live b xs) ys"
  by (induction b xs rule: row_live.induct) simp_all

lemma save_png_closes_file: "\<not> fp_open b (snd (save_png flt img p))"
  by (simp add: save_png_def Let_def fp_open_append write_rows_keeps_resources
      case_prod_beta bool.case_eq_if)

lemma save_png_result:
  "fst (save_png flt img p) = 0 \<or> fst (save_png flt img p) = - 1"
  by (simp add: save_png_def Let_def case_prod_beta bool.case_eq_if)

lemma save_png_row_leak:
  "row_live b (snd (save_png flt img p))
     = (if fopen_fails flt \<or> create_write_fails flt \<or> create_info_fails flt \<or> set_ihdr_fails flt \<or> write_info_fails flt then b 
        else \<not> malloc_fails flt \<and> \<not> fst (write_rows flt img 0 (map (junk flt) [0..<nat (3 * width img)])))"
  by (simp add: save_png_def Let_def row_live_append write_rows_keeps_resources
      case_prod_beta bool.case_eq_if)

text \<open>The value of \<open>save_png\<close>: 0 when no step fails, \<open>-1\<close> otherwise.\<close>

lemma save_png_value:
  "fst (save_png flt img p)
     = (if fopen_fails flt \<or> create_write_fails flt \<or> create_info_fails flt
           \<or> set_ihdr_fails flt \<or> write_info_fails flt \<or> malloc_fails flt
           \<or> \<not> fst (write_rows flt img 0 (map (junk flt) [0..<nat (3 * width img)]))
           \<or> write_end_fails flt
        then - 1 else 0)"
  by (simp add: save_png_def Let_def case_prod_beta bool.case_eq_if)

text \<open>
  Claim C3 (the code departs from it). \<open>png_write_row\<close> fails on the first row of a
  1x1 frame: \<open>save_png\<close> returns \<open>-1\<close> and closes the file, but the calls it made
  hold a \<open>malloc\<close> without a \<open>free\<close>: the block after \<open>setjmp\<close> does not free the row
  buffer.
\<close>

theorem save_png_write_error_keeps_row:
  "save_png row_write_fault frame_1x1 ''out.png''
     = (- 1, [EvFopen ''out.png'' True, EvPngCreateWrite True, EvPngCreateInfo True, EvPngInitIo,
              EvPngSetIHDR 1 1 True, EvPngWriteInfo True, EvMalloc 3 True,
              EvPngWriteRow [0x11, 0x22, 0x33] False, EvPngDestroyWrite, EvFclose])
   \<and> row_live False (snd (save_png row_write_fault frame_1x1 ''out.png''))
   \<and> \<not> fp_open False (snd (save_png row_write_fault frame_1x1 ''out.png''))"
  by (simp add: save_png_def row_write_fault_def no_faults_def frame_1x1_def write_rows.simps
      fill_row.simps store_pixel_def upt_rec)

section \<open>The interval and the exit status: results\<close>

lemma usleep_arg_in_range: "0 \<le> i \<Longrightarrow> i \<le> 4294967 \<Longrightarrow> usleep_arg i = nat (i * 1000)"
proof -
  assume a: "0 \<le> i" "i \<le> 4294967"
  then have "0 \<le> i * 1000" "i * 1000 < 2 ^ 32" by simp_all
  then have "take_bit 32 (i * 1000) = i * 1000" by (rule take_bit_int_eq_self)
  then show ?thesis by (simp only: usleep_arg_def unsigned_of_int) simp
qed

text \<open>
  Claim C6 (the code departs from it). With the argument \<open>5000000\<close> the interval is
  5000000 ms, but the product \<open>interval_ms * 1000\<close> does not fit 32 bits: \<open>usleep\<close> is
  called with 705032704 microseconds, less than the interval.
\<close>

theorem usleep_argument_wraps:
  "interval_of_args [''screenshot_daemon'', ''5000000''] = 5000000
   \<and> usleep_arg (interval_of_args [''screenshot_daemon'', ''5000000'']) = 705032704
   \<and> usleep_arg (interval_of_args [''screenshot_daemon'', ''5000000'']) < 5000000 * 1000"
proof -
  have "interval_of_args [''screenshot_daemon'', ''5000000''] = 5000000"
    by (simp add: interval_of_args_def atoi_def strtol10_def digits_read_def is_negative_def
        after_space_def isspace_def isdigit_def digit_val_def)
  then show ?thesis by (simp add: usleep_arg_def)
qed

lemma main_loop_never_left: "main_loop e home interval_ms k w = None"
proof (cases "main_loop e home interval_ms k w")
  case (Some w')
  have False
    by (rule main_loop.raw_induct [where P = "\<lambda>e home interval_ms k w w'. False", OF _ Some]) blast
  then show ?thesis ..
qed simp

text \<open>
  Claim C7. \<open>main\<close> returns 1 exactly when \<open>XOpenDisplay\<close> fails. When it succeeds
  \<open>main\<close> does not return: the loop is never left, and the \<open>return 0\<close> after it is
  never reached.
\<close>

theorem main_exit_status:
  "(main e w = Some 1 \<longleftrightarrow> \<not> XOpenDisplay_ok e)
   \<and> (XOpenDisplay_ok e \<longrightarrow> main e w = None)
   \<and> main e w \<noteq> Some 0"
  by (simp add: main_def main_loop_never_left)

theorem main_exit_status_witness:
  "XOpenDisplay_ok env0 \<and> main env0 world0 = None
   \<and> \<not> XOpenDisplay_ok (env0\<lparr>XOpenDisplay_ok := False\<rparr>)
   \<and> main (env0\<lparr>XOpenDisplay_ok := False\<rparr>) world0 = Some 1"
  using main_exit_status [of env0 world0]
    main_exit_status [of "env0\<lparr>XOpenDisplay_ok := False\<rparr>" world0]
  by (simp add: env0_def)

section \<open>Directory creation: results\<close>

lemma mkdir_fields [simp]:
  "trace (snd (mkdir p m w)) = trace w @ [EvMkdir p m (mkdir_errno w p)]"
  "rand_calls (snd (mkdir p m w)) = rand_calls w"
  "readonly (snd (mkdir p m w)) = readonly w"
  by (simp_all add: mkdir_def Let_def)

lemma mkdir_p_loop_fold:
  "mkdir_p_loop tmp i mode w = foldl (mkdir_step mode) w (loop_calls tmp i)"
proof (induction tmp i mode w rule: mkdir_p_loop.induct)
  case (1 tmp i mode w)
  show ?case
  proof (cases "i < length tmp")
    case True
    then have u: "[i..<length tmp] = i # [i + 1..<length tmp]"
      by (simp add: upt_conv_Cons)
    show ?thesis
      using True "1.IH"
      by (subst mkdir_p_loop.simps) (simp add: loop_calls_def u mkdir_step_def [symmetric])
  next
    case False
    then show ?thesis
      by (subst mkdir_p_loop.simps) (simp add: loop_calls_def)
  qed
qed

lemma mkdir_p_fold:
  "snd (mkdir_p path mode w) = foldl (mkdir_step mode) w (mkdir_p_calls path)"
  by (simp add: mkdir_p_def mkdir_p_calls_def mkdir_p_tmp_def Let_def mkdir_p_loop_fold mkdir_step_def)

lemma mkdir_p_value:
  "fst (mkdir_p path mode w) =
     (if snprintf 512 path = [] then - 1
      else fst (mkdir (mkdir_p_tmp path) mode
                  (foldl (mkdir_step mode) w (loop_calls (mkdir_p_tmp path) 1))))"
  by (simp add: mkdir_p_def mkdir_p_tmp_def Let_def mkdir_p_loop_fold)

lemma split_slash_nonempty: "split_slash s \<noteq> []"
  by (induction s) (auto split: list.splits)

lemma split_slash_append:
  "split_slash (a @ CHR ''/'' # b) = split_slash a @ split_slash b"
  using split_slash_nonempty
  by (induction a) (auto split: list.splits)

lemma path_key_take:
  assumes "0 < j" "j < length s" "s ! j = CHR ''/''"
  shows "\<exists>r. path_key s = path_key (take j s) @ r"
proof -
  have s: "s = take j s @ CHR ''/'' # drop (Suc j) s"
    using assms id_take_nth_drop [of j s] by simp
  have ne: "take j s \<noteq> []" "s \<noteq> []" using assms by auto
  have hd: "hd (take j s) = hd s" using assms by simp
  have "split_slash s = split_slash (take j s) @ split_slash (drop (Suc j) s)"
    by (subst s) (rule split_slash_append)
  then show ?thesis
    unfolding path_key_def using ne hd by simp
qed

lemma path_key_take_le:
  assumes "0 < j" "j < length s" "s ! j = CHR ''/''"
  shows "length (path_key (take j s)) \<le> length (path_key s)"
  using path_key_take [OF assms] by (metis le_add1 length_append)

lemma loop_calls_sorted: "0 < i \<Longrightarrow> sorted_wrt key_le (loop_calls tmp i)"
proof -
  assume i: "0 < i"
  let ?js = "filter (\<lambda>j. tmp ! j = CHR ''/'') [i..<length tmp]"
  have "sorted_wrt (<) ?js" by (rule sorted_wrt_filter) simp
  then have "sorted_wrt (\<lambda>j j'. key_le (take j tmp) (take j' tmp)) ?js"
  proof (rule sorted_wrt_mono_rel [rotated])
    fix j j' assume a: "j \<in> set ?js" "j' \<in> set ?js" "j < j'"
    then have "0 < j" "j < length (take j' tmp)" "take j' tmp ! j = CHR ''/''"
      using i by auto
    from path_key_take_le [OF this] a show "key_le (take j tmp) (take j' tmp)"
      by (simp add: key_le_def min_def)
  qed
  then show ?thesis by (simp add: loop_calls_def sorted_wrt_map)
qed

lemma mkdir_p_calls_sorted: "sorted_wrt key_le (mkdir_p_calls path)"
proof -
  have "key_le p (mkdir_p_tmp path)" if "p \<in> set (loop_calls (mkdir_p_tmp path) 1)" for p
  proof -
    from that obtain j where j: "j \<in> set [1..<length (mkdir_p_tmp path)]"
      "mkdir_p_tmp path ! j = CHR ''/''" "p = take j (mkdir_p_tmp path)"
      unfolding loop_calls_def by auto
    from j(1) have "0 < j" "j < length (mkdir_p_tmp path)" by simp_all
    with j(2,3) have "0 < j" "j < length (mkdir_p_tmp path)" "mkdir_p_tmp path ! j = CHR ''/''"
      "p = take j (mkdir_p_tmp path)"
      by simp_all
    then show ?thesis using path_key_take_le by (simp add: key_le_def)
  qed
  then show ?thesis
    by (simp add: mkdir_p_calls_def sorted_wrt_append loop_calls_sorted)
qed


lemma mkdir_dirs:
  "dirs (snd (mkdir p m w)) = (if mkdir_errno w p = None then insert (path_key p) (dirs w) else dirs w)"
  by (simp add: mkdir_def Let_def)

lemma mkdir_readonly: "readonly (snd (mkdir p m w)) = readonly w"
  by (simp add: mkdir_def Let_def)

lemma mkdir_errno_cong:
  "dirs w' = dirs w \<Longrightarrow> readonly w' = readonly w \<Longrightarrow> mkdir_errno w' p = mkdir_errno w p"
  by (simp add: mkdir_errno_def is_dir_def Let_def)

lemma mkdir_failed:
  assumes "mkdir_errno w q \<noteq> None"
  shows "dirs (snd (mkdir q m w)) = dirs w" "mkdir_errno (snd (mkdir q m w)) p = mkdir_errno w p"
proof -
  show d: "dirs (snd (mkdir q m w)) = dirs w"
    using assms by (auto simp: mkdir_dirs)
  show "mkdir_errno (snd (mkdir q m w)) p = mkdir_errno w p"
    by (rule mkdir_errno_cong [OF d mkdir_readonly])
qed

text \<open>Once \<open>mkdir p\<close> has been called, calling it again creates nothing.\<close>

lemma mkdir_again:
  "mkdir_errno (snd (mkdir p m w)) p \<noteq> None"
proof (cases "mkdir_errno w p = None")
  case True
  then have "is_dir (snd (mkdir p m w)) (path_key p)"
    by (simp add: is_dir_def mkdir_dirs)
  then show ?thesis by (simp add: mkdir_errno_def Let_def)
next
  case False
  then show ?thesis by (simp add: mkdir_failed)
qed

lemma mkdir_errno_None_iff:
  "mkdir_errno w p = None \<longleftrightarrow>
     p \<noteq> [] \<and> \<not> is_dir w (path_key p) \<and> is_dir w (butlast (path_key p))
     \<and> butlast (path_key p) \<notin> readonly w"
  by (simp add: mkdir_errno_def Let_def)

lemma mkdir_stable:
  assumes "mkdir_errno w p \<noteq> None" "key_le p q"
  shows "mkdir_errno (snd (mkdir q m w)) p \<noteq> None"
proof (cases "mkdir_errno w q = None")
  case False
  then show ?thesis using assms by (simp add: mkdir_failed)
next
  case True
  let ?w = "snd (mkdir q m w)"
  have d: "is_dir ?w k \<longleftrightarrow> is_dir w k \<or> k = path_key q" for k
    using True by (auto simp: mkdir_dirs is_dir_def)
  show ?thesis
  proof (cases "is_dir w (path_key p)")
    case True
    then show ?thesis by (simp add: mkdir_errno_None_iff d)
  next
    case False
    then have "path_key p \<noteq> []" by (auto simp: is_dir_def)
    then have "length (butlast (path_key p)) < length (path_key p)" by simp
    also have "\<dots> \<le> length (path_key q)" using assms(2) by (simp add: key_le_def)
    finally have "length (butlast (path_key p)) \<noteq> length (path_key q)" by simp
    then have "butlast (path_key p) \<noteq> path_key q" by (rule contrapos_nn) (simp only:)
    then have "is_dir ?w (butlast (path_key p)) \<longleftrightarrow> is_dir w (butlast (path_key p))"
      by (simp add: d)
    then show ?thesis
      using assms(1) False by (simp add: mkdir_errno_None_iff mkdir_readonly) blast
  qed
qed

lemma foldl_mkdir_stuck:
  "sorted_wrt key_le ps \<Longrightarrow> p \<in> set ps \<Longrightarrow> mkdir_errno (foldl (mkdir_step m) w ps) p \<noteq> None"
proof (induction ps arbitrary: p rule: rev_induct)
  case Nil
  then show ?case by simp
next
  case (snoc q ps)
  from snoc.prems(1) have s: "sorted_wrt key_le ps" "\<forall>x \<in> set ps. key_le x q"
    by (simp_all add: sorted_wrt_append)
  show ?case
  proof (cases "p \<in> set ps")
    case True
    then show ?thesis using snoc.IH [OF s(1) True] s(2)
      by (simp add: mkdir_step_def mkdir_stable)
  next
    case False
    then have "p = q" using snoc.prems(2) by simp
    then show ?thesis by (simp add: mkdir_step_def mkdir_again)
  qed
qed

lemma foldl_mkdir_noop:
  "\<forall>p \<in> set ps. mkdir_errno w p \<noteq> None \<Longrightarrow> dirs (foldl (mkdir_step m) w ps) = dirs w"
proof (induction ps arbitrary: w)
  case Nil
  then show ?case by simp
next
  case (Cons q ps)
  have q: "mkdir_errno w q \<noteq> None" using Cons.prems by simp
  then have d: "dirs (mkdir_step m w q) = dirs w"
    by (simp add: mkdir_step_def mkdir_failed)
  have "\<forall>p \<in> set ps. mkdir_errno (mkdir_step m w q) p \<noteq> None"
    using Cons.prems q by (simp add: mkdir_step_def mkdir_failed)
  from Cons.IH [OF this] show ?case using d by simp
qed

lemma mkdir_p_twice:
  "dirs (snd (mkdir_p path m' (snd (mkdir_p path m w)))) = dirs (snd (mkdir_p path m w))"
  unfolding mkdir_p_fold
  by (intro foldl_mkdir_noop ballI foldl_mkdir_stuck mkdir_p_calls_sorted)

section \<open>The calls of one pass: results\<close>

lemma foldl_mkdir_fields:
  "\<exists>es. trace (foldl (mkdir_step m) w ps) = trace w @ es \<and> length es = length ps
        \<and> (\<forall>ev \<in> set es. is_mkdir ev)"
  "rand_calls (foldl (mkdir_step m) w ps) = rand_calls w"
  "readonly (foldl (mkdir_step m) w ps) = readonly w"
proof (induction ps arbitrary: w)
  case Nil
  {
    case 1 show ?case by simp
  next
    case 2 show ?case by simp
  next
    case 3 show ?case by simp
  }
next
  case (Cons p ps)
  {
    case 1
    from Cons.IH(1) [of "mkdir_step m w p"] obtain es where
      "trace (foldl (mkdir_step m) (mkdir_step m w p) ps) = trace (mkdir_step m w p) @ es"
      "length es = length ps" "\<forall>ev \<in> set es. is_mkdir ev"
      by blast
    then have "trace (foldl (mkdir_step m) w (p # ps))
                 = trace w @ (EvMkdir p m (mkdir_errno w p) # es)
               \<and> length (EvMkdir p m (mkdir_errno w p) # es) = length (p # ps)
               \<and> (\<forall>ev \<in> set (EvMkdir p m (mkdir_errno w p) # es). is_mkdir ev)"
      by (simp add: mkdir_step_def)
    then show ?case by blast
  next
    case 2 show ?case by (simp add: Cons.IH(2)) (simp add: mkdir_step_def)
  next
    case 3 show ?case by (simp add: Cons.IH(3)) (simp add: mkdir_step_def)
  }
qed

lemma mkdir_p_trace:
  "trace (snd (mkdir_p path m w)) = trace w @ mkdir_p_events path m w"
  "\<forall>ev \<in> set (mkdir_p_events path m w). is_mkdir ev"
  "length (mkdir_p_events path m w) = length (mkdir_p_calls path)"
proof -
  obtain es where es: "trace (snd (mkdir_p path m w)) = trace w @ es"
    "length es = length (mkdir_p_calls path)" "\<forall>ev \<in> set es. is_mkdir ev"
    unfolding mkdir_p_fold using foldl_mkdir_fields(1) by blast
  then have "mkdir_p_events path m w = es" by (simp add: mkdir_p_events_def)
  with es show "trace (snd (mkdir_p path m w)) = trace w @ mkdir_p_events path m w"
    "\<forall>ev \<in> set (mkdir_p_events path m w). is_mkdir ev"
    "length (mkdir_p_events path m w) = length (mkdir_p_calls path)"
    by simp_all
qed

lemma mkdir_p_keeps [simp]:
  "rand_calls (snd (mkdir_p path m w)) = rand_calls w"
  "readonly (snd (mkdir_p path m w)) = readonly w"
  by (simp_all add: mkdir_p_fold foldl_mkdir_fields)

lemma random_hex_loop_world:
  "snd (random_hex_loop rnd i len out w)
     = w\<lparr>rand_calls := rand_calls w + (len - i), trace := trace w @ replicate (len - i) EvRand\<rparr>"
proof (induction rnd i len out w rule: random_hex_loop.induct)
  case (1 rnd i len out w)
  show ?case
  proof (cases "i < len")
    case True
    then have "len - i = Suc (len - (i + 1))" by simp
    then show ?thesis using True "1.IH"
      by (subst random_hex_loop.simps) (simp add: replicate_app_Cons_same)
  next
    case False
    then show ?thesis by (subst random_hex_loop.simps) simp
  qed
qed

lemma random_hex_loop_name:
  "rand_calls w' = rand_calls w \<Longrightarrow>
     fst (random_hex_loop rnd i len out w') = fst (random_hex_loop rnd i len out w)"
proof (induction rnd i len out w arbitrary: w' rule: random_hex_loop.induct)
  case (1 rnd i len out w)
  show ?case
  proof (cases "i < len")
    case True
    let ?out = "out[i := hex ! (rnd (rand_calls w) mod 16)]"
    have l: "random_hex_loop rnd i len out w'
               = random_hex_loop rnd (i + 1) len ?out
                   (w'\<lparr>rand_calls := rand_calls w' + 1, trace := trace w' @ [EvRand]\<rparr>)"
      using True "1.prems" by (subst random_hex_loop.simps) simp
    have r: "random_hex_loop rnd i len out w
               = random_hex_loop rnd (i + 1) len ?out
                   (w\<lparr>rand_calls := rand_calls w + 1, trace := trace w @ [EvRand]\<rparr>)"
      using True by (subst random_hex_loop.simps) simp
    show ?thesis
      unfolding l r by (rule "1.IH" [OF True]) (simp add: "1.prems")
  next
    case False
    then show ?thesis by (subst (1 2) random_hex_loop.simps) simp
  qed
qed

lemma hex_mod [simp]: "hex ! (n mod 16) \<in> set hex"
  by (rule nth_mem) (simp add: hex_def)

lemma random_hex_loop_chars:
  "length (fst (random_hex_loop rnd i len out w)) = length out"
  "length out = len \<Longrightarrow> set (take i out) \<subseteq> set hex \<Longrightarrow>
     set (fst (random_hex_loop rnd i len out w)) \<subseteq> set hex"
proof (induction rnd i len out w rule: random_hex_loop.induct)
  case (1 rnd i len out w)
  {
    case 1
    show ?case using "1.IH"(1)
      by (subst random_hex_loop.simps) simp
  next
    case 2
    show ?case
    proof (cases "i < len")
      case True
      let ?c = "hex ! (rnd (rand_calls w) mod 16)"
      have "take (i + 1) (out[i := ?c]) = take i out @ [?c]"
        using True 2 by (simp add: take_Suc_conv_app_nth)
      then have "set (take (i + 1) (out[i := ?c])) \<subseteq> set hex"
        using 2 by simp
      then show ?thesis using True 2 "1.IH"(2)
        by (subst random_hex_loop.simps) simp
    next
      case False
      then show ?thesis using 2 by (subst random_hex_loop.simps) simp
    qed
  }
qed

lemma random_hex_world:
  "snd (random_hex rnd len w)
     = w\<lparr>rand_calls := rand_calls w + len, trace := trace w @ replicate len EvRand\<rparr>"
  by (simp add: random_hex_def random_hex_loop_world)

lemma random_hex_name:
  "rand_calls w' = rand_calls w \<Longrightarrow> fst (random_hex rnd len w') = fst (random_hex rnd len w)"
  unfolding random_hex_def by (rule random_hex_loop_name)

lemma random_hex_chars:
  "length (fst (random_hex rnd len w)) = len"
  "set (fst (random_hex rnd len w)) \<subseteq> set hex"
  by (simp_all add: random_hex_def random_hex_loop_chars)

lemma encoder_kinds:
  "is_encoder ev \<Longrightarrow> \<not> is_mkdir ev \<and> \<not> is_stdout ev \<and> \<not> is_capture ev \<and> \<not> is_usleep ev"
  by (cases ev) simp_all

lemma mkdir_kinds:
  "is_mkdir ev \<Longrightarrow> \<not> is_encoder ev \<and> \<not> is_stdout ev \<and> \<not> is_capture ev \<and> \<not> is_usleep ev"
  by (cases ev) simp_all

lemma write_rows_events: "list_all is_encoder (snd (write_rows flt img y row))"
proof (induction flt img y row rule: write_rows.induct)
  case (1 flt img y row)
  show ?case
    using "1.IH"
    by (subst write_rows.simps) (simp add: Let_def case_prod_beta)
qed

lemma save_png_events_all: "list_all is_encoder (snd (save_png flt img p))"
  by (simp add: save_png_def Let_def case_prod_beta bool.case_eq_if write_rows_events)

lemma save_png_events: "ev \<in> set (snd (save_png flt img p)) \<Longrightarrow> is_encoder ev"
  using save_png_events_all [of flt img p] by (simp add: list_all_iff)

lemma save_png_event_kinds:
  assumes "ev \<in> set (snd (save_png flt img p))"
  shows "\<not> is_mkdir ev" "\<not> is_stdout ev" "\<not> is_capture ev" "\<not> is_usleep ev"
  using save_png_events [OF assms] encoder_kinds [of ev] by auto

lemma save_png_fopen_path:
  "list_all (\<lambda>ev. \<forall>q ok. ev = EvFopen q ok \<longrightarrow> q = p) (snd (save_png flt img p))"
proof -
  have "list_all (\<lambda>ev. \<forall>q ok. ev = EvFopen q ok \<longrightarrow> q = p) (snd (write_rows flt img y row))"
    for y row
  proof (induction flt img y row rule: write_rows.induct)
    case (1 flt img y row)
    show ?case using "1.IH"
      by (subst write_rows.simps) (simp add: Let_def case_prod_beta)
  qed
  then show ?thesis
    by (simp add: save_png_def Let_def case_prod_beta bool.case_eq_if)
qed

lemma emit_fields [simp]:
  "trace (emit es w) = trace w @ es" "rand_calls (emit es w) = rand_calls w"
  "dirs (emit es w) = dirs w" "readonly (emit es w) = readonly w"
  by (simp_all add: emit_def)

text \<open>The calls of a pass, in order.\<close>

lemma iteration_trace:
  "trace (iteration e home i k w)
     = trace w @ EvLocaltime
         # mkdir_p_events (dirpath_of home (localtime_at e k)) mode_0755 (emit [EvLocaltime] w)
         @ replicate RANDOM_NAME_LEN EvRand
         @ capture_step e k (iteration_filepath e home k w)
         @ [EvUsleep (usleep_arg i)]"
proof -
  let ?d = "dirpath_of home (localtime_at e k)"
  let ?w1 = "snd (mkdir_p ?d mode_0755 (emit [EvLocaltime] w))"
  have n: "fst (random_hex (rand_seq e) RANDOM_NAME_LEN ?w1)
             = fst (random_hex (rand_seq e) RANDOM_NAME_LEN w)"
    by (rule random_hex_name) simp
  have t: "trace ?w1 = trace w @ EvLocaltime # mkdir_p_events ?d mode_0755 (emit [EvLocaltime] w)"
    by (simp add: mkdir_p_trace(1))
  show ?thesis
    by (simp add: iteration_def capture_and_save_def Let_def case_prod_beta
        random_hex_world n t iteration_filepath_def)
qed

lemma iteration_events_eq:
  "iteration_events e home i k w
     = EvLocaltime
         # mkdir_p_events (dirpath_of home (localtime_at e k)) mode_0755 (emit [EvLocaltime] w)
         @ replicate RANDOM_NAME_LEN EvRand
         @ capture_step e k (iteration_filepath e home k w)
         @ [EvUsleep (usleep_arg i)]"
  by (simp add: iteration_events_def iteration_trace)

lemma iteration_dirs:
  "dirs (iteration e home i k w)
     = dirs (snd (mkdir_p (dirpath_of home (localtime_at e k)) mode_0755 (emit [EvLocaltime] w)))"
  "readonly (iteration e home i k w) = readonly w"
  by (simp_all add: iteration_def capture_and_save_def Let_def case_prod_beta
      random_hex_world)

lemma capture_step_kinds:
  "ev \<in> set (capture_step e k p) \<Longrightarrow> \<not> is_mkdir ev \<and> \<not> is_usleep ev"
  by (auto simp: capture_step_def case_prod_beta split: option.splits if_splits
      dest: save_png_event_kinds)

lemma filter_mkdir_events [simp]:
  "filter (\<lambda>ev. \<not> is_mkdir ev) (mkdir_p_events p m w) = []"
  "filter is_capture (mkdir_p_events p m w) = []"
  "filter is_stdout (mkdir_p_events p m w) = []"
  using mkdir_p_trace(2) [of p m w] mkdir_kinds by (auto simp: filter_empty_conv)

section \<open>The scheduler loop: results\<close>

lemma save_png_no_stdout: "filter is_stdout (snd (save_png flt img p)) = []"
  using save_png_event_kinds(2) by (auto simp: filter_empty_conv)

lemma capture_step_stdout:
  "filter is_stdout (capture_step e k p)
     = (case XGetImage_at e k of
          None \<Rightarrow> []
        | Some img \<Rightarrow> if fst (save_png (png_at e k) img p) = 0 then [EvStdout (msg_saved p)] else [])"
  by (simp add: capture_step_def case_prod_beta save_png_no_stdout split: option.splits)

lemma iteration_stdout:
  "filter is_stdout (iteration_events e home i k w)
     = filter is_stdout (capture_step e k (iteration_filepath e home k w))"
  by (simp add: iteration_events_eq)

lemma filter_mkdir_encoder: "filter is_encoder (mkdir_p_events p m w) = []"
  using mkdir_p_trace(2) [of p m w] mkdir_kinds by (auto simp: filter_empty_conv)

lemma ex_filter: "(\<exists>ev \<in> set evs. P ev) \<longleftrightarrow> filter P evs \<noteq> []"
  by (simp add: filter_empty_conv)

text \<open>
  Claim C5. In a pass where \<open>XGetImage\<close> returns \<open>NULL\<close>, none of the calls of
  \<open>save_png\<close> is made (no file is opened or written) and nothing is printed on
  \<open>stdout\<close>; \<open>XGetImage\<close> is called once, the failure is reported on \<open>stderr\<close>, and the
  pass ends with the \<open>usleep\<close>. In any pass, a line is printed on \<open>stdout\<close> exactly when
  an image was captured and \<open>save_png\<close> returned 0, and the line names the file path.
\<close>

theorem capture_failure_abandons_pass:
  "(XGetImage_at e k = None \<longrightarrow>
      (\<forall>ev \<in> set (iteration_events e home i k w). \<not> is_encoder ev \<and> \<not> is_stdout ev)
      \<and> filter is_capture (iteration_events e home i k w) = [EvXGetImage False]
      \<and> EvStderr msg_screenshot_failed \<in> set (iteration_events e home i k w)
      \<and> last (iteration_events e home i k w) = EvUsleep (usleep_arg i))
   \<and> ((\<exists>ev \<in> set (iteration_events e home i k w). is_stdout ev) \<longleftrightarrow>
        (\<exists>img. XGetImage_at e k = Some img
           \<and> fst (save_png (png_at e k) img (iteration_filepath e home k w)) = 0))
   \<and> (\<forall>ev \<in> set (iteration_events e home i k w).
         is_stdout ev \<longrightarrow> ev = EvStdout (msg_saved (iteration_filepath e home k w)))"
proof (intro conjI impI)
  assume n: "XGetImage_at e k = None"
  have c: "capture_step e k p = [EvXGetImage False, EvStderr msg_screenshot_failed]" for p
    using n by (simp add: capture_step_def)
  have "filter is_encoder (iteration_events e home i k w) = []"
    "filter is_stdout (iteration_events e home i k w) = []"
    by (simp_all add: iteration_events_eq c filter_mkdir_encoder)
  then show "\<forall>ev \<in> set (iteration_events e home i k w). \<not> is_encoder ev \<and> \<not> is_stdout ev"
    by (simp add: filter_empty_conv)
  show "filter is_capture (iteration_events e home i k w) = [EvXGetImage False]"
    by (simp add: iteration_events_eq c)
  show "EvStderr msg_screenshot_failed \<in> set (iteration_events e home i k w)"
    by (simp add: iteration_events_eq c)
  show "last (iteration_events e home i k w) = EvUsleep (usleep_arg i)"
    by (simp add: iteration_events_eq)
next
  show "(\<exists>ev \<in> set (iteration_events e home i k w). is_stdout ev) \<longleftrightarrow>
        (\<exists>img. XGetImage_at e k = Some img
           \<and> fst (save_png (png_at e k) img (iteration_filepath e home k w)) = 0)"
    unfolding ex_filter iteration_stdout capture_step_stdout
    by (simp split: option.splits)
next
  have "set (filter is_stdout (iteration_events e home i k w))
          \<subseteq> {EvStdout (msg_saved (iteration_filepath e home k w))}"
    unfolding iteration_stdout capture_step_stdout by (auto split: option.splits)
  then show "\<forall>ev \<in> set (iteration_events e home i k w).
         is_stdout ev \<longrightarrow> ev = EvStdout (msg_saved (iteration_filepath e home k w))"
    by auto
qed

theorem capture_failure_abandons_pass_witness:
  "XGetImage_at env0 0 = None
   \<and> \<not> (\<exists>ev \<in> set (iteration_events env0 ''/home/u'' 250 0 world0). is_encoder ev \<or> is_stdout ev)
   \<and> filter is_capture (iteration_events env0 ''/home/u'' 250 0 world0) = [EvXGetImage False]
   \<and> EvStderr msg_screenshot_failed \<in> set (iteration_events env0 ''/home/u'' 250 0 world0)
   \<and> last (iteration_events env0 ''/home/u'' 250 0 world0) = EvUsleep 250000
   \<and> XGetImage_at env0 2 = Some frame_1x1
   \<and> fst (save_png (png_at env0 2) frame_1x1 (iteration_filepath env0 ''/home/u'' 2 world0)) = 0
   \<and> (\<exists>ev \<in> set (iteration_events env0 ''/home/u'' 250 2 world0). is_stdout ev)"
proof -
  have a: "XGetImage_at env0 0 = None" "XGetImage_at env0 2 = Some frame_1x1"
    "png_at env0 2 = no_faults"
    by (simp_all add: env0_def)
  have s: "fst (save_png no_faults frame_1x1 p) = 0" for p
    by (simp add: save_png_def no_faults_def frame_1x1_def write_rows.simps case_prod_beta)
  have u: "usleep_arg 250 = 250000" by (simp add: usleep_arg_def)
  show ?thesis
    using capture_failure_abandons_pass [of env0 0 "''/home/u''" 250 world0]
      capture_failure_abandons_pass [of env0 2 "''/home/u''" 250 world0]
    by (simp add: a s u)
qed

lemma dirpath_nonempty: "snprintf 512 (dirpath_of home t) \<noteq> []"
  by (simp add: dirpath_of_def snprintf_def)

text \<open>
  Claim C8. The calls of a pass are the time query, then at least one \<open>mkdir\<close>, then the
  rest; all \<open>mkdir\<close> calls come before \<open>XGetImage\<close> and before every call of
  \<open>save_png\<close>. The directories on disk after the pass are those \<open>mkdir_p\<close> leaves,
  whatever the capture and the encoder do.
\<close>

theorem mkdir_before_capture:
  "\<exists>mk rest. iteration_events e home i k w = EvLocaltime # mk @ rest
     \<and> mk \<noteq> []
     \<and> (\<forall>ev \<in> set mk. is_mkdir ev \<and> \<not> is_capture ev \<and> \<not> is_encoder ev)
     \<and> (\<forall>ev \<in> set rest. \<not> is_mkdir ev)
     \<and> (\<exists>ev \<in> set rest. is_capture ev)
     \<and> dirs (iteration e home i k w)
         = dirs (snd (mkdir_p (dirpath_of home (localtime_at e k)) mode_0755
                        (emit [EvLocaltime] w)))"
proof -
  let ?d = "dirpath_of home (localtime_at e k)"
  let ?mk = "mkdir_p_events ?d mode_0755 (emit [EvLocaltime] w)"
  let ?rest = "replicate RANDOM_NAME_LEN EvRand @ capture_step e k (iteration_filepath e home k w)
                 @ [EvUsleep (usleep_arg i)]"
  have "length ?mk = length (mkdir_p_calls ?d)" by (rule mkdir_p_trace(3))
  then have 1: "?mk \<noteq> []"
    using dirpath_nonempty [of home "localtime_at e k"] by (auto simp: mkdir_p_calls_def)
  have 2: "\<forall>ev \<in> set ?mk. is_mkdir ev \<and> \<not> is_capture ev \<and> \<not> is_encoder ev"
    using mkdir_p_trace(2) mkdir_kinds by blast
  have 3: "\<forall>ev \<in> set ?rest. \<not> is_mkdir ev"
    using capture_step_kinds by auto
  have 4: "\<exists>ev \<in> set ?rest. is_capture ev"
    by (auto simp: capture_step_def case_prod_beta split: option.splits)
  have "iteration_events e home i k w = EvLocaltime # ?mk @ ?rest"
    by (simp add: iteration_events_eq)
  with 1 2 3 4 iteration_dirs(1) [of e home i k w] show ?thesis by blast
qed

lemma dirpath_2026: "dirpath_of ''/home/u'' tm_2026 = ''/home/u/Screenshots/2026/10/30/16''"
  by (simp add: dirpath_of_def tm_2026_def fmt_0d_def dec.simps digit_char_def snprintf_def)

theorem mkdir_before_capture_witness:
  "XGetImage_at env0 0 = None
   \<and> dirs (iteration env0 ''/home/u'' 250 0 world0)
     = {[''/'', ''home''], [''/'', ''home'', ''u''], [''/'', ''home'', ''u'', ''Screenshots''],
        [''/'', ''home'', ''u'', ''Screenshots'', ''2026''],
        [''/'', ''home'', ''u'', ''Screenshots'', ''2026'', ''10''],
        [''/'', ''home'', ''u'', ''Screenshots'', ''2026'', ''10'', ''30''],
        [''/'', ''home'', ''u'', ''Screenshots'', ''2026'', ''10'', ''30'', ''16'']}"
proof -
  have ev: "dirs (snd (mkdir_p ''/home/u/Screenshots/2026/10/30/16'' mode_0755
                         (emit [EvLocaltime] world0)))
    = {[''/'', ''home''], [''/'', ''home'', ''u''], [''/'', ''home'', ''u'', ''Screenshots''],
       [''/'', ''home'', ''u'', ''Screenshots'', ''2026''],
       [''/'', ''home'', ''u'', ''Screenshots'', ''2026'', ''10''],
       [''/'', ''home'', ''u'', ''Screenshots'', ''2026'', ''10'', ''30''],
       [''/'', ''home'', ''u'', ''Screenshots'', ''2026'', ''10'', ''30'', ''16'']}"
    by code_simp
  have t: "localtime_at env0 0 = tm_2026" "XGetImage_at env0 0 = None"
    by (simp_all add: env0_def)
  from mkdir_before_capture [of env0 "''/home/u''" 250 0 world0]
  have "dirs (iteration env0 ''/home/u'' 250 0 world0)
          = dirs (snd (mkdir_p (dirpath_of ''/home/u'' (localtime_at env0 0)) mode_0755
                         (emit [EvLocaltime] world0)))"
    by blast
  then show ?thesis by (simp add: t dirpath_2026 ev)
qed

lemma foldl_mkdir_cong:
  "dirs w' = dirs w \<Longrightarrow> readonly w' = readonly w \<Longrightarrow>
     dirs (foldl (mkdir_step m') w' ps) = dirs (foldl (mkdir_step m) w ps)"
proof (induction ps arbitrary: w w')
  case Nil
  then show ?case by simp
next
  case (Cons p ps)
  have e: "mkdir_errno w' p = mkdir_errno w p"
    using Cons.prems by (rule mkdir_errno_cong)
  have "dirs (mkdir_step m' w' p) = dirs (mkdir_step m w p)"
    "readonly (mkdir_step m' w' p) = readonly (mkdir_step m w p)"
    using Cons.prems by (simp_all add: mkdir_step_def mkdir_dirs e)
  from Cons.IH [OF this] show ?case by simp
qed

lemma mkdir_p_dirs_cong:
  "dirs w' = dirs w \<Longrightarrow> readonly w' = readonly w \<Longrightarrow>
     dirs (snd (mkdir_p path m' w')) = dirs (snd (mkdir_p path m w))"
  unfolding mkdir_p_fold by (rule foldl_mkdir_cong)

lemma capture_step_no_mkdir: "filter (\<lambda>ev. \<not> is_mkdir ev) (capture_step e k p) = capture_step e k p"
  using capture_step_kinds by (simp add: filter_id_conv)

lemma iteration_other_events:
  "filter (\<lambda>ev. \<not> is_mkdir ev) (iteration_events e home i k w)
     = EvLocaltime # replicate RANDOM_NAME_LEN EvRand
         @ capture_step e k (iteration_filepath e home k w) @ [EvUsleep (usleep_arg i)]"
  by (simp add: iteration_events_eq capture_step_no_mkdir)

lemma iteration_filepath_cong:
  "rand_calls w' = rand_calls w \<Longrightarrow> iteration_filepath e home k w' = iteration_filepath e home k w"
  unfolding iteration_filepath_def by (simp add: random_hex_name [of w' w])

text \<open>
  Claim C9. Running \<open>mkdir_p\<close> a second time on the same path leaves the directories on
  disk as the first run left them, and so does a second pass with the same local time.
  When every segment exists already, \<open>mkdir_p\<close> changes nothing. The calls of a pass
  other than \<open>mkdir\<close> do not depend on which directories exist.
\<close>

theorem mkdir_p_idempotent:
  "dirs (snd (mkdir_p path mode (snd (mkdir_p path mode w)))) = dirs (snd (mkdir_p path mode w))
   \<and> (localtime_at e (Suc k) = localtime_at e k \<longrightarrow>
        dirs (iteration e home i (Suc k) (iteration e home i k w)) = dirs (iteration e home i k w))
   \<and> ((\<forall>p \<in> set (mkdir_p_calls path). is_dir w (path_key p)) \<longrightarrow>
        dirs (snd (mkdir_p path mode w)) = dirs w)
   \<and> (rand_calls w' = rand_calls w \<longrightarrow>
        filter (\<lambda>ev. \<not> is_mkdir ev) (iteration_events e home i k w')
          = filter (\<lambda>ev. \<not> is_mkdir ev) (iteration_events e home i k w))"
proof (intro conjI impI)
  show "dirs (snd (mkdir_p path mode (snd (mkdir_p path mode w)))) = dirs (snd (mkdir_p path mode w))"
    by (rule mkdir_p_twice)
next
  assume t: "localtime_at e (Suc k) = localtime_at e k"
  let ?d = "dirpath_of home (localtime_at e k)"
  let ?w1 = "snd (mkdir_p ?d mode_0755 (emit [EvLocaltime] w))"
  have "dirs (iteration e home i (Suc k) (iteration e home i k w))
          = dirs (snd (mkdir_p ?d mode_0755 (emit [EvLocaltime] (iteration e home i k w))))"
    by (simp add: iteration_dirs t)
  also have "\<dots> = dirs (snd (mkdir_p ?d mode_0755 ?w1))"
    by (rule mkdir_p_dirs_cong) (simp_all add: iteration_dirs)
  also have "\<dots> = dirs ?w1" by (rule mkdir_p_twice)
  finally show "dirs (iteration e home i (Suc k) (iteration e home i k w)) = dirs (iteration e home i k w)"
    by (simp add: iteration_dirs)
next
  assume a: "\<forall>p \<in> set (mkdir_p_calls path). is_dir w (path_key p)"
  have "\<forall>p \<in> set (mkdir_p_calls path). mkdir_errno w p \<noteq> None"
    using a by (simp add: mkdir_errno_None_iff)
  then show "dirs (snd (mkdir_p path mode w)) = dirs w"
    unfolding mkdir_p_fold by (rule foldl_mkdir_noop)
next
  assume "rand_calls w' = rand_calls w"
  then show "filter (\<lambda>ev. \<not> is_mkdir ev) (iteration_events e home i k w')
          = filter (\<lambda>ev. \<not> is_mkdir ev) (iteration_events e home i k w)"
    by (simp add: iteration_other_events iteration_filepath_cong [of w' w])
qed

lemma foldl_mkdir_mono: "is_dir w k \<Longrightarrow> is_dir (foldl (mkdir_step m) w ps) k"
proof (induction ps arbitrary: w)
  case Nil
  then show ?case by simp
next
  case (Cons p ps)
  have "is_dir (mkdir_step m w p) k"
    using Cons.prems by (auto simp: is_dir_def mkdir_step_def mkdir_dirs)
  then show ?case using Cons.IH by simp
qed

lemma split_slash_snoc: "split_slash (a @ ''/'') = split_slash a @ [[]]"
  using split_slash_append [of a "[]"] by simp

lemma path_key_snoc: "a \<noteq> [] \<Longrightarrow> path_key (a @ ''/'') = path_key a"
  by (simp add: path_key_def split_slash_snoc)

lemma mkdir_p_tmp_cases:
  assumes "length path \<le> 511" "path \<noteq> []"
  shows "mkdir_p_tmp path = [] \<or> path_key (mkdir_p_tmp path) = path_key path"
proof -
  have s: "snprintf 512 path = path" using assms by (simp add: snprintf_def)
  show ?thesis
  proof (cases "last path = CHR ''/''")
    case True
    then have p: "path = butlast path @ ''/''"
      using assms(2) by (metis append_butlast_last_id)
    have "mkdir_p_tmp path = butlast path"
      using True assms(2) by (simp add: mkdir_p_tmp_def s Let_def last_conv_nth butlast_conv_take)
    then show ?thesis
      using path_key_snoc [of "butlast path"] p by (cases "butlast path = []") simp_all
  next
    case False
    then have "mkdir_p_tmp path = path"
      using assms(2) by (simp add: mkdir_p_tmp_def s Let_def last_conv_nth)
    then show ?thesis by simp
  qed
qed

lemma mkdir_value: "fst (mkdir p m w) = (if mkdir_errno w p = None then 0 else - 1)"
  by (simp add: mkdir_def Let_def)

lemma snprintf_empty [simp]: "snprintf 512 path = [] \<longleftrightarrow> path = []"
  by (simp add: snprintf_def)

text \<open>
  Claim C10. \<open>mkdir_p\<close> returns \<open>-1\<close> for the empty path without calling \<open>mkdir\<close>.
  Otherwise its value is the value of the last \<open>mkdir\<close> call, the one on the whole path
  (as copied to \<open>tmp\<close>), made after the calls of the loop whatever they returned: it is 0
  exactly when that call reports no error. It is \<open>-1\<close> when the path exists already,
  for a path of at most 511 characters; the path \<open>main\<close> passes is never longer.
  A pass continues with the world
  \<open>mkdir_p\<close> leaves and not with its value: the calls of the pass other than \<open>mkdir\<close> are
  the time query, the \<open>rand\<close> calls, the capture step and the \<open>usleep\<close>.
\<close>

theorem mkdir_p_return_value:
  "mkdir_p [] mode w = (- 1, w)
   \<and> (path \<noteq> [] \<longrightarrow>
        fst (mkdir_p path mode w)
          = fst (mkdir (mkdir_p_tmp path) mode
                   (foldl (mkdir_step mode) w (loop_calls (mkdir_p_tmp path) 1)))
        \<and> last (trace (snd (mkdir_p path mode w)))
            = EvMkdir (mkdir_p_tmp path) mode
                (mkdir_errno (foldl (mkdir_step mode) w (loop_calls (mkdir_p_tmp path) 1))
                   (mkdir_p_tmp path))
        \<and> fst (mkdir_p path mode w)
            = (if mkdir_errno (foldl (mkdir_step mode) w (loop_calls (mkdir_p_tmp path) 1))
                    (mkdir_p_tmp path) = None
               then 0 else - 1))
   \<and> (length path \<le> 511 \<and> is_dir w (path_key path) \<longrightarrow> fst (mkdir_p path mode w) = - 1)
   \<and> length (dirpath_of home (localtime_at e k)) \<le> 511
   \<and> iteration e home i k w
       = capture_and_save e i k (dirpath_of home (localtime_at e k))
           (snd (mkdir_p (dirpath_of home (localtime_at e k)) mode_0755 (emit [EvLocaltime] w)))
   \<and> filter (\<lambda>ev. \<not> is_mkdir ev) (iteration_events e home i k w)
       = EvLocaltime # replicate RANDOM_NAME_LEN EvRand
           @ capture_step e k (iteration_filepath e home k w) @ [EvUsleep (usleep_arg i)]"
proof (intro conjI impI)
  show "mkdir_p [] mode w = (- 1, w)"
    by (simp add: mkdir_p_def snprintf_def)
next
  assume p: "path \<noteq> []"
  let ?w = "foldl (mkdir_step mode) w (loop_calls (mkdir_p_tmp path) 1)"
  show v: "fst (mkdir_p path mode w) = fst (mkdir (mkdir_p_tmp path) mode ?w)"
    using p by (simp add: mkdir_p_value)
  have "snd (mkdir_p path mode w) = snd (mkdir (mkdir_p_tmp path) mode ?w)"
    using p by (simp add: mkdir_p_fold mkdir_p_calls_def mkdir_step_def)
  then show "last (trace (snd (mkdir_p path mode w)))
            = EvMkdir (mkdir_p_tmp path) mode (mkdir_errno ?w (mkdir_p_tmp path))"
    by simp
  show "fst (mkdir_p path mode w) = (if mkdir_errno ?w (mkdir_p_tmp path) = None then 0 else - 1)"
    unfolding v by (rule mkdir_value)
next
  assume a: "length path \<le> 511 \<and> is_dir w (path_key path)"
  show "fst (mkdir_p path mode w) = - 1"
  proof (cases "path = []")
    case True
    then show ?thesis by (simp add: mkdir_p_def snprintf_def)
  next
    case False
    let ?w = "foldl (mkdir_step mode) w (loop_calls (mkdir_p_tmp path) 1)"
    have d: "is_dir ?w (path_key path)" using a by (simp add: foldl_mkdir_mono)
    have "mkdir_errno ?w (mkdir_p_tmp path) \<noteq> None"
      using mkdir_p_tmp_cases [OF _ False] a d
      by (auto simp: mkdir_errno_None_iff)
    then show ?thesis using False by (simp add: mkdir_p_value mkdir_value)
  qed
next
  show "length (dirpath_of home (localtime_at e k)) \<le> 511"
    by (simp add: dirpath_of_def snprintf_def)
next
  show "iteration e home i k w
       = capture_and_save e i k (dirpath_of home (localtime_at e k))
           (snd (mkdir_p (dirpath_of home (localtime_at e k)) mode_0755 (emit [EvLocaltime] w)))"
    by (simp add: iteration_def Let_def)
next
  show "filter (\<lambda>ev. \<not> is_mkdir ev) (iteration_events e home i k w)
       = EvLocaltime # replicate RANDOM_NAME_LEN EvRand
           @ capture_step e k (iteration_filepath e home k w) @ [EvUsleep (usleep_arg i)]"
    by (rule iteration_other_events)
qed

theorem mkdir_p_idempotent_witness:
  "dirs (snd (mkdir_p ''/home/u/Screenshots/2026/10/30/16'' 493
                (snd (mkdir_p ''/home/u/Screenshots/2026/10/30/16'' 493 world0))))
     = dirs world_full
   \<and> dirs (snd (mkdir_p ''/home/u/Screenshots/2026/10/30/16'' 493 world0)) = dirs world_full
   \<and> localtime_at env0 (Suc 0) = localtime_at env0 0
   \<and> dirs (iteration env0 ''/home/u'' 250 (Suc 0) (iteration env0 ''/home/u'' 250 0 world0))
       = dirs (iteration env0 ''/home/u'' 250 0 world0)
   \<and> list_all (\<lambda>p. is_dir world_full (path_key p))
        (mkdir_p_calls ''/home/u/Screenshots/2026/10/30/16'')
   \<and> dirs (snd (mkdir_p ''/home/u/Screenshots/2026/10/30/16'' 493 world_full)) = dirs world_full
   \<and> rand_calls world_full = rand_calls world0
   \<and> filter (\<lambda>ev. \<not> is_mkdir ev) (iteration_events env0 ''/home/u'' 250 0 world_full)
       = filter (\<lambda>ev. \<not> is_mkdir ev) (iteration_events env0 ''/home/u'' 250 0 world0)"
proof -
  have a: "list_all (\<lambda>p. is_dir world_full (path_key p))
             (mkdir_p_calls ''/home/u/Screenshots/2026/10/30/16'')"
    by code_simp
  have b: "dirs (snd (mkdir_p ''/home/u/Screenshots/2026/10/30/16'' 493 world0)) = dirs world_full"
    by code_simp
  have c: "localtime_at env0 (Suc 0) = localtime_at env0 0"
    "rand_calls world_full = rand_calls world0"
    by (simp_all add: env0_def world_full_def)
  show ?thesis
    using mkdir_p_idempotent [of "''/home/u/Screenshots/2026/10/30/16''" 493 world0
        env0 0 "''/home/u''" 250 world_full]
      mkdir_p_idempotent [of "''/home/u/Screenshots/2026/10/30/16''" 493 world_full
        env0 0 "''/home/u''" 250 world_full]
      a
    by (simp add: b c list_all_iff)
qed

theorem mkdir_p_return_value_witness:
  "''/home/u/Screenshots/2026/10/30/16'' \<noteq> []
   \<and> fst (mkdir_p ''/home/u/Screenshots/2026/10/30/16'' 493 world0) = 0
   \<and> last (trace (snd (mkdir_p ''/home/u/Screenshots/2026/10/30/16'' 493 world0)))
       = EvMkdir ''/home/u/Screenshots/2026/10/30/16'' 493 None
   \<and> EvMkdir ''/home/u'' 493 (Some EEXIST)
       \<in> set (trace (snd (mkdir_p ''/home/u/Screenshots/2026/10/30/16'' 493 world0)))
   \<and> length ''/home/u/Screenshots/2026/10/30/16'' \<le> 511
   \<and> is_dir world_full (path_key ''/home/u/Screenshots/2026/10/30/16'')
   \<and> fst (mkdir_p ''/home/u/Screenshots/2026/10/30/16'' 493 world_full) = - 1"
proof -
  have a: "mkdir_p_tmp ''/home/u/Screenshots/2026/10/30/16'' = ''/home/u/Screenshots/2026/10/30/16''"
    "mkdir_errno (foldl (mkdir_step 493) world0 (loop_calls ''/home/u/Screenshots/2026/10/30/16'' (Suc 0)))
       ''/home/u/Screenshots/2026/10/30/16'' = None"
    "EvMkdir ''/home/u'' 493 (Some EEXIST)
       \<in> set (trace (snd (mkdir_p ''/home/u/Screenshots/2026/10/30/16'' 493 world0)))"
    "is_dir world_full (path_key ''/home/u/Screenshots/2026/10/30/16'')"
    by code_simp+
  show ?thesis
    using mkdir_p_return_value [where mode = 493 and w = world0
          and path = "''/home/u/Screenshots/2026/10/30/16''" and e = env0
          and home = "''/home/u''" and i = 250 and k = 0]
      mkdir_p_return_value [where mode = 493 and w = world_full
          and path = "''/home/u/Screenshots/2026/10/30/16''" and e = env0
          and home = "''/home/u''" and i = 250 and k = 0]
    by (simp add: a mkdir_value)
qed

section \<open>The capture path: results\<close>

lemma digit_char_0 [simp]: "digit_char 0 = CHR ''0''"
  by (simp add: digit_char_def)

lemma dec_1: "n < 10 \<Longrightarrow> dec n = [digit_char n]"
  by (subst dec.simps) simp

lemma dec_2: "10 \<le> n \<Longrightarrow> n < 100 \<Longrightarrow> dec n = [digit_char (n div 10), digit_char (n mod 10)]"
  by (subst dec.simps) (simp add: dec_1)

lemma dec_3:
  "100 \<le> n \<Longrightarrow> n < 1000 \<Longrightarrow>
     dec n = [digit_char (n div 100), digit_char (n div 10 mod 10), digit_char (n mod 10)]"
  by (subst dec.simps) (simp add: dec_2 div_mult2_eq [symmetric])

lemma dec_4:
  "1000 \<le> n \<Longrightarrow> n < 10000 \<Longrightarrow>
     dec n = [digit_char (n div 1000), digit_char (n div 100 mod 10),
              digit_char (n div 10 mod 10), digit_char (n mod 10)]"
  by (subst dec.simps) (simp add: dec_3 div_mult2_eq [symmetric])

lemma rep: "replicate 3 c = [c, c, c]" "replicate 2 c = [c, c]"
  by (simp_all add: numeral_3_eq_3 numeral_2_eq_2)

lemma fmt_0d_2: "0 \<le> v \<Longrightarrow> v \<le> 99 \<Longrightarrow> fmt_0d 2 v = digits2 v"
proof -
  assume v: "0 \<le> v" "v \<le> 99"
  then have n: "nat v < 100" by simp
  show ?thesis
  proof (cases "nat v < 10")
    case True
    then show ?thesis using v by (simp add: fmt_0d_def digits2_def dec_1)
  next
    case False
    then show ?thesis using v n by (simp add: fmt_0d_def digits2_def dec_2)
  qed
qed

lemma fmt_0d_4: "0 \<le> v \<Longrightarrow> v \<le> 9999 \<Longrightarrow> fmt_0d 4 v = digits4 v"
proof -
  assume v: "0 \<le> v" "v \<le> 9999"
  then have n: "nat v < 10000" by simp
  consider "nat v < 10" | "10 \<le> nat v" "nat v < 100" | "100 \<le> nat v" "nat v < 1000"
    | "1000 \<le> nat v" "nat v < 10000"
    using n by linarith
  then show ?thesis
  proof cases
    case 1
    then show ?thesis using v by (simp add: fmt_0d_def digits4_def dec_1 rep)
  next
    case 2
    then show ?thesis using v by (simp add: fmt_0d_def digits4_def dec_2 rep)
  next
    case 3
    then show ?thesis using v by (simp add: fmt_0d_def digits4_def dec_3 rep)
  next
    case 4
    then show ?thesis using v by (simp add: fmt_0d_def digits4_def dec_4)
  qed
qed


lemma snprintf_fits: "length s < n \<Longrightarrow> snprintf n s = s"
  by (simp add: snprintf_def)

lemma length_digits [simp]: "length (digits4 v) = 4" "length (digits2 v) = 2"
  by (simp_all add: digits4_def digits2_def)

lemma dirpath_fits:
  assumes "length home \<le> 485"
    and "0 \<le> tm_year t + 1900" "tm_year t + 1900 \<le> 9999"
    and "0 \<le> tm_mon t" "tm_mon t \<le> 11"
    and "1 \<le> tm_mday t" "tm_mday t \<le> 31"
    and "0 \<le> tm_hour t" "tm_hour t \<le> 23"
  shows "dirpath_of home t
           = home @ ''/Screenshots/'' @ digits4 (tm_year t + 1900) @ ''/''
               @ digits2 (tm_mon t + 1) @ ''/'' @ digits2 (tm_mday t) @ ''/''
               @ digits2 (tm_hour t)"
proof -
  have f: "fmt_0d 4 (tm_year t + 1900) = digits4 (tm_year t + 1900)"
    "fmt_0d 2 (tm_mon t + 1) = digits2 (tm_mon t + 1)"
    "fmt_0d 2 (tm_mday t) = digits2 (tm_mday t)"
    "fmt_0d 2 (tm_hour t) = digits2 (tm_hour t)"
    using assms by (simp_all add: fmt_0d_4 fmt_0d_2)
  show ?thesis
    unfolding dirpath_of_def f using assms(1) by (intro snprintf_fits) simp
qed

lemma fopen_in_pass:
  assumes "EvFopen q ok \<in> set (iteration_events e home i k w)"
  shows "q = iteration_filepath e home k w"
proof -
  have "EvFopen q ok \<notin> set (mkdir_p_events d m w')" for d m w'
    using mkdir_p_trace(2) [of d m w'] by auto
  then have "EvFopen q ok \<in> set (capture_step e k (iteration_filepath e home k w))"
    using assms by (simp add: iteration_events_eq)
  then obtain img where
    "EvFopen q ok \<in> set (snd (save_png (png_at e k) img (iteration_filepath e home k w)))"
    by (auto simp: capture_step_def case_prod_beta split: option.splits if_splits)
  then show ?thesis
    using save_png_fopen_path [of "iteration_filepath e home k w" "png_at e k" img]
    by (auto simp: list_all_iff)
qed

text \<open>
  Claim C2, as amended. For a base directory of at most 485 characters and a local time
  with a year from 0 to 9999 (month, day and hour in their calendar ranges), the path of
  a pass is \<open><base>/Screenshots/<YYYY>/<MM>/<DD>/<HH>/<rand8>.png\<close> with a four-digit year
  and two-digit month, day and hour; the name \<open><rand8>\<close> has 8 characters, each one of
  \<open>0123456789abcdef\<close>; and every \<open>fopen\<close> of the pass is on that path.
\<close>

theorem capture_path_format:
  assumes "length home \<le> 485"
    and "0 \<le> tm_year (localtime_at e k) + 1900" "tm_year (localtime_at e k) + 1900 \<le> 9999"
    and "0 \<le> tm_mon (localtime_at e k)" "tm_mon (localtime_at e k) \<le> 11"
    and "1 \<le> tm_mday (localtime_at e k)" "tm_mday (localtime_at e k) \<le> 31"
    and "0 \<le> tm_hour (localtime_at e k)" "tm_hour (localtime_at e k) \<le> 23"
  shows "iteration_filepath e home k w
           = spec_path home (localtime_at e k) (fst (random_hex (rand_seq e) RANDOM_NAME_LEN w))
       \<and> length (fst (random_hex (rand_seq e) RANDOM_NAME_LEN w)) = 8
       \<and> set (fst (random_hex (rand_seq e) RANDOM_NAME_LEN w)) \<subseteq> set ''0123456789abcdef''
       \<and> (\<forall>q ok. EvFopen q ok \<in> set (iteration_events e home i k w)
             \<longrightarrow> q = iteration_filepath e home k w)"
proof -
  let ?name = "fst (random_hex (rand_seq e) RANDOM_NAME_LEN w)"
  have n: "length ?name = 8" "set ?name \<subseteq> set ''0123456789abcdef''"
    using random_hex_chars [of "rand_seq e" RANDOM_NAME_LEN w]
    by (simp_all add: RANDOM_NAME_LEN_def hex_def)
  have d: "dirpath_of home (localtime_at e k)
             = home @ ''/Screenshots/'' @ digits4 (tm_year (localtime_at e k) + 1900) @ ''/''
                 @ digits2 (tm_mon (localtime_at e k) + 1) @ ''/''
                 @ digits2 (tm_mday (localtime_at e k)) @ ''/''
                 @ digits2 (tm_hour (localtime_at e k))"
    using assms by (rule dirpath_fits)
  have "iteration_filepath e home k w = spec_path home (localtime_at e k) ?name"
    unfolding iteration_filepath_def filepath_of_def d spec_path_def
    using assms(1) n(1) by (subst snprintf_fits) simp_all
  then show ?thesis using n fopen_in_pass by blast
qed

theorem capture_path_format_witness:
  "length ''/home/u'' \<le> 485
   \<and> 0 \<le> tm_year (localtime_at env0 0) + 1900 \<and> tm_year (localtime_at env0 0) + 1900 \<le> 9999
   \<and> 0 \<le> tm_mon (localtime_at env0 0) \<and> tm_mon (localtime_at env0 0) \<le> 11
   \<and> 1 \<le> tm_mday (localtime_at env0 0) \<and> tm_mday (localtime_at env0 0) \<le> 31
   \<and> 0 \<le> tm_hour (localtime_at env0 0) \<and> tm_hour (localtime_at env0 0) \<le> 23
   \<and> iteration_filepath env0 ''/home/u'' 0 world0
       = ''/home/u/Screenshots/2026/10/30/16/3a18f6d4.png''"
proof -
  have t: "localtime_at env0 0 = tm_2026" by (simp add: env0_def)
  have r: "fst (random_hex (rand_seq env0) RANDOM_NAME_LEN world0) = ''3a18f6d4''"
    by code_simp
  have s: "spec_path ''/home/u'' tm_2026 ''3a18f6d4''
             = ''/home/u/Screenshots/2026/10/30/16/3a18f6d4.png''"
    by (simp add: spec_path_def tm_2026_def digits4_def digits2_def digit_char_def)
  show ?thesis
    using capture_path_format [of "''/home/u''" env0 0 world0 250]
    by (simp add: t r s) (simp add: tm_2026_def)
qed

text \<open>
  Claim C2 as stated fails for a long base directory: with a \<open>HOME\<close> of 500 characters
  \<open>snprintf\<close> cuts the directory path at 511 characters, and the path of the pass is not
  the one the claim describes.
\<close>

theorem long_home_path_truncated:
  "iteration_filepath env_long (home_of env_long) 0 world0
     \<noteq> spec_path (home_of env_long) (localtime_at env_long 0)
          (fst (random_hex (rand_seq env_long) RANDOM_NAME_LEN world0))"
proof -
  let ?name = "fst (random_hex (rand_seq env_long) RANDOM_NAME_LEN world0)"
  have n: "length ?name = 8"
    using random_hex_chars(1) [of "rand_seq env_long" RANDOM_NAME_LEN world0]
    by (simp add: RANDOM_NAME_LEN_def)
  have h: "length (home_of env_long) = 500"
    by (simp add: env_long_def home_of_def)
  have "length (iteration_filepath env_long (home_of env_long) 0 world0) \<le> 524"
    using n by (simp add: iteration_filepath_def filepath_of_def dirpath_of_def snprintf_def)
  moreover have "length (spec_path (home_of env_long) (localtime_at env_long 0) ?name) = 539"
    using n h by (simp add: spec_path_def)
  ultimately show ?thesis by auto
qed

section \<open>The sleep of a pass: results\<close>

text \<open>Every pass ends with its one \<open>usleep\<close>, whatever the capture and the encoder did.\<close>

lemma pass_sleeps_once:
  "filter is_usleep (iteration_events e home i k w) = [EvUsleep (usleep_arg i)]"
  "last (iteration_events e home i k w) = EvUsleep (usleep_arg i)"
proof -
  have "filter is_usleep (mkdir_p_events d m w') = []" for d m w'
    using mkdir_p_trace(2) [of d m w'] mkdir_kinds by (auto simp: filter_empty_conv)
  moreover have "filter is_usleep (capture_step e k p) = []" for p
    using capture_step_kinds by (auto simp: filter_empty_conv)
  ultimately show "filter is_usleep (iteration_events e home i k w) = [EvUsleep (usleep_arg i)]"
    by (simp add: iteration_events_eq)
  show "last (iteration_events e home i k w) = EvUsleep (usleep_arg i)"
    by (simp add: iteration_events_eq)
qed

lemma iteration_trace_events:
  "trace (iteration e home i k w) = trace w @ iteration_events e home i k w"
  by (simp add: iteration_trace iteration_events_eq)

lemma run_sleeps:
  "filter is_usleep (trace (run e home i n w))
     = filter is_usleep (trace w) @ replicate n (EvUsleep (usleep_arg i))"
  by (induction n) (simp_all add: iteration_trace_events pass_sleeps_once replicate_append_same)

end
